theory Spec2Isabelle
  imports Main "HOL-Library.AList" "HOL-Library.Multiset"
begin

section \<open>COT \<open>xml_file.py\<close>: the XML helper class\<close>

subsection \<open>Data model\<close>

text \<open>
  An \<open>xml.etree.ElementTree.Element\<close>: a tag, an attribute dictionary, the optional text
  before the first child, the optional tail after the element, and the ordered children.
  Python's \<open>None\<close> is \<open>None\<close>. A dictionary is an association list in insertion order,
  read with \<open>map_of\<close> and written with \<open>AList.update\<close> (an existing key keeps its place,
  a new key goes to the end, as in a Python dict).

  The tree is a value: elements are not shared between parents, as in a parsed document.
  A reference to an element (what \<open>find_child\<close> returns and \<open>set_or_make_child\<close> mutates)
  is the path of positions that leads to it from \<open>parent\<close>.
\<close>

type_synonym attrs = "(string \<times> string) list"

datatype element =
  Element (tag: string) (attrib: attrs) (elem_text: "string option")
          (tail: "string option") (children: "element list")

fun set_text :: "string option \<Rightarrow> element \<Rightarrow> element" where
  "set_text x (Element tg at tx ta cs) = Element tg at x ta cs"

fun set_tail :: "string option \<Rightarrow> element \<Rightarrow> element" where
  "set_tail x (Element tg at tx ta cs) = Element tg at tx x cs"

fun set_attrib :: "attrs \<Rightarrow> element \<Rightarrow> element" where
  "set_attrib x (Element tg at tx ta cs) = Element tg x tx ta cs"

fun set_children :: "element list \<Rightarrow> element \<Rightarrow> element" where
  "set_children x (Element tg at tx ta cs) = Element tg at tx ta x"

text \<open>\<open>Element.get(key, None)\<close> and \<open>Element.set(key, value)\<close> of the standard library.\<close>

definition get_attr :: "element \<Rightarrow> string \<Rightarrow> string option" where
  "get_attr e key = map_of (attrib e) key"

definition set_attr :: "string \<Rightarrow> string \<Rightarrow> element \<Rightarrow> element" where
  "set_attr key v e = set_attrib (AList.update key v (attrib e)) e"

text \<open>\<open>list.insert(i, x)\<close>: for \<open>i\<close> beyond the end it appends.\<close>

definition list_insert :: "nat \<Rightarrow> 'a \<Rightarrow> 'a list \<Rightarrow> 'a list" where
  "list_insert i x xs = take i xs @ x # drop i xs"

text \<open>\<open>list.index(x)\<close>: the first position of \<open>x\<close>; \<open>None\<close> stands for \<open>ValueError\<close>.\<close>

fun index_of :: "'a list \<Rightarrow> 'a \<Rightarrow> nat option" where
  "index_of [] x = None"
| "index_of (y # ys) x = (if y = x then Some 0 else map_option Suc (index_of ys x))"

text \<open>
  Truth value of an optional list argument (\<open>if ordering\<close>, \<open>if attrib\<close>,
  \<open>known_namespaces and ...\<close>): \<open>None\<close> and the empty list are false.
\<close>

fun truthy :: "'a list option \<Rightarrow> bool" where
  "truthy None = False"
| "truthy (Some xs) = (xs \<noteq> [])"

subsection \<open>Logging\<close>

text \<open>
  The records that \<open>add_child\<close> hands to the logger, directly or through \<open>get_ns\<close> and
  \<open>strip_ns\<close>, in the order they are emitted. The arguments are those of the format string.
\<close>

datatype log_record =
    NoNamespacePrefix string
  | NewChildNotExpected string string "string list"
  | ExistingChildNotExpected string string "string list"

fun is_warning :: "log_record \<Rightarrow> bool" where
  "is_warning (NoNamespacePrefix t) = False"
| "is_warning (NewChildNotExpected t p ord) = True"
| "is_warning (ExistingChildNotExpected t p ord) = True"

subsection \<open>Namespace utilities\<close>

text \<open>
  \<open>re.match(r"\{(.*)\}", text)\<close> and \<open>re.match(r"\{.*\}(.*)", text)\<close>: the match is anchored
  at the start, \<open>.\<close> does not match a newline and \<open>.*\<close> is greedy. So the text must start
  with an opening brace, the closing brace is the last one on the first line, and the
  second pattern's group is the rest of that line. \<open>match_braces\<close> returns what lies
  between the braces and what follows them.
\<close>

definition first_line :: "string \<Rightarrow> string" where
  "first_line s = takeWhile (\<lambda>c. c \<noteq> CHR 0x0A) s"

definition match_braces :: "string \<Rightarrow> (string \<times> string) option" where
  "match_braces text =
     (case text of
        [] \<Rightarrow> None
      | c # cs \<Rightarrow>
          (let line = first_line cs in
           if c = CHR ''{'' \<and> CHR ''}'' \<in> set line
           then Some (rev (tl (dropWhile (\<lambda>c. c \<noteq> CHR ''}'') (rev line))),
                      rev (takeWhile (\<lambda>c. c \<noteq> CHR ''}'') (rev line)))
           else None))"

definition get_ns :: "string \<Rightarrow> string \<times> log_record list" where
  "get_ns text =
     (case match_braces text of
        None \<Rightarrow> ('''', [NoNamespacePrefix text])
      | Some (ns, rest) \<Rightarrow> (ns, []))"

definition strip_ns :: "string \<Rightarrow> string \<times> log_record list" where
  "strip_ns text =
     (case match_braces text of
        None \<Rightarrow> (text, [NoNamespacePrefix text])
      | Some (ns, rest) \<Rightarrow> (rest, []))"

subsection \<open>Ordered insertion\<close>

text \<open>
  The condition \<open>known_namespaces and (XML.get_ns(t) in known_namespaces)\<close>, which
  \<open>add_child\<close> evaluates for the new child and for an existing child: \<open>get_ns\<close> runs (and
  may log) only when \<open>known_namespaces\<close> is true.
\<close>

definition in_known_namespaces :: "string list option \<Rightarrow> string \<Rightarrow> bool \<times> log_record list" where
  "in_known_namespaces known_namespaces t =
     (if truthy known_namespaces
      then (let (ns, lg) = get_ns t in (ns \<in> set (the known_namespaces), lg))
      else (False, []))"

text \<open>
  The \<open>for child in list(parent)\<close> loop of \<open>add_child\<close>, from position \<open>i\<close> on: the result is
  the final \<open>i\<close>, \<open>found_position\<close> and what was logged.
\<close>

fun scan_children ::
  "string list \<Rightarrow> string list option \<Rightarrow> string \<Rightarrow> nat \<Rightarrow> element list \<Rightarrow> nat
     \<Rightarrow> nat \<times> bool \<times> log_record list" where
  "scan_children ord known_namespaces ptag new_index [] i = (i, False, [])"
| "scan_children ord known_namespaces ptag new_index (child # rest) i =
     (case index_of ord (tag child) of
        Some k \<Rightarrow>
          if k > new_index then (i, True, [])
          else scan_children ord known_namespaces ptag new_index rest (i + 1)
      | None \<Rightarrow>
          (let (known, lg) = in_known_namespaces known_namespaces (tag child) in
           (i, True,
            lg @ (if known
                  then snd (strip_ns ptag) @
                       [ExistingChildNotExpected (tag child) (fst (strip_ns ptag)) ord]
                  else []))))"

text \<open>
  \<open>add_child\<close> returns the parent after the call and the log. The first \<open>if\<close> of the source
  rebinds \<open>ordering\<close> (\<open>ord\<close> before, \<open>ordering1\<close> after) and may warn about the new child.
  In the last branch \<open>ordering1\<close> is the given ordering and holds the new child's tag, so
  \<open>ordering.index(new_child.tag)\<close> cannot raise: the \<open>None\<close> case is never taken.
\<close>

definition add_child ::
  "element \<Rightarrow> element \<Rightarrow> string list option \<Rightarrow> string list option
     \<Rightarrow> element \<times> log_record list" where
  "add_child parent new_child ord known_namespaces =
     (let (ordering1, log1) =
            (if truthy ord \<and> tag new_child \<notin> set (the ord)
             then (let (known, lg) = in_known_namespaces known_namespaces (tag new_child) in
                   (None,
                    lg @ (if known
                          then snd (strip_ns (tag parent)) @
                               [NewChildNotExpected (tag new_child)
                                  (fst (strip_ns (tag parent))) (the ord)]
                          else [])))
             else (ord, []))
      in
      if \<not> truthy ordering1
      then (set_children (children parent @ [new_child]) parent, log1)
      else
        (case index_of (the ordering1) (tag new_child) of
           None \<Rightarrow> (parent, log1)
         | Some new_index \<Rightarrow>
             (let (i, found_position, log2) =
                    scan_children (the ordering1) known_namespaces (tag parent) new_index
                      (children parent) 0
              in
              if found_position
              then (set_children (list_insert i new_child (children parent)) parent, log1 @ log2)
              else (set_children (children parent @ [new_child]) parent, log1 @ log2))))"

text \<open>
  Python's \<open>add_child\<close> returns nothing; its caller \<open>set_or_make_child\<close> keeps the reference
  \<open>element\<close> to the child it has just attached. In the model that reference is the
  position the child was given: where the scan stopped, or the old number of children
  when the child was appended.
\<close>

definition add_child_position ::
  "element \<Rightarrow> element \<Rightarrow> string list option \<Rightarrow> string list option \<Rightarrow> nat" where
  "add_child_position parent new_child ord known_namespaces =
     (if truthy ord \<and> tag new_child \<in> set (the ord)
      then (case index_of (the ord) (tag new_child) of
              None \<Rightarrow> length (children parent)
            | Some new_index \<Rightarrow>
                fst (scan_children (the ord) known_namespaces (tag parent) new_index
                       (children parent) 0))
      else length (children parent))"

subsection \<open>Lookup\<close>

text \<open>
  A reference to an element at or below \<open>parent\<close> is the path of child positions that leads
  to it: \<open>[]\<close> is \<open>parent\<close> itself, \<open>[i]\<close> its child at position \<open>i\<close>, \<open>[i, j]\<close> a grandchild.
  \<open>get_at\<close> reads through a reference and \<open>update_at\<close> mutates the element it points to.
\<close>

type_synonym ref = "nat list"

fun get_at :: "element \<Rightarrow> ref \<Rightarrow> element" where
  "get_at e [] = e"
| "get_at e (i # r) = get_at (children e ! i) r"

fun update_at :: "ref \<Rightarrow> (element \<Rightarrow> element) \<Rightarrow> element \<Rightarrow> element" where
  "update_at [] f e = f e"
| "update_at (i # r) f e =
     set_children ((children e)[i := update_at r f (children e ! i)]) e"

text \<open>
  The exceptions: Python's \<open>LookupError\<close> is the specification's "MultipleMatches" and
  \<open>KeyError\<close> its "MissingRequired"; \<open>SyntaxError\<close> is what the standard library raises on
  a path expression it cannot read.
\<close>

datatype error = LookupError | KeyError | SyntaxError

text \<open>
  \<open>Element.findall(path)\<close> of the standard library (CPython 3.8 and later) reads its
  argument as an ElementPath expression. Three kinds of expression are modelled:
  \<^item> a plain tag, that is a name of ASCII letters, digits, \<open>_\<close>, \<open>-\<close> and \<open>.\<close> that starts with a
    letter or \<open>_\<close>, alone or after \<open>{uri}\<close> with a non-empty \<open>uri\<close> other than \<open>*\<close>: the tokenizer
    reads it as one tag, and the children with exactly that tag are selected;
  \<^item> \<open>*\<close>: every child is selected;
  \<^item> \<open>{}name\<close> with such a name: "\<open>{}tag\<close> is \<open>tag\<close>", the children whose tag is \<open>name\<close>, without
    the braces, are selected.
  Every other expression (steps separated by \<open>/\<close>, \<open>.\<close>, \<open>..\<close>, \<open>//\<close>, predicates in brackets,
  the other wildcards, prefixes with \<open>:\<close>, ...) is left to the parameter \<open>lib\<close>, which
  stands for what the library then returns or raises: the theorems hold whatever it does.
\<close>

definition name_start :: "char \<Rightarrow> bool" where
  "name_start c = (c \<in> set ''abcdefghijklmnopqrstuvwxyzABCDEFGHIJKLMNOPQRSTUVWXYZ_'')"

definition name_char :: "char \<Rightarrow> bool" where
  "name_char c = (name_start c \<or> c \<in> set ''0123456789-.'')"

definition plain_name :: "string \<Rightarrow> bool" where
  "plain_name l = (case l of [] \<Rightarrow> False | c # cs \<Rightarrow> name_start c \<and> list_all name_char cs)"

definition plain_tag :: "string \<Rightarrow> bool" where
  "plain_tag t =
     (case t of
        [] \<Rightarrow> False
      | c # cs \<Rightarrow>
          if c = CHR ''{''
          then (let uri = takeWhile (\<lambda>x. x \<noteq> CHR ''}'') cs;
                    rest = dropWhile (\<lambda>x. x \<noteq> CHR ''}'') cs
                in uri \<noteq> [] \<and> uri \<noteq> ''*'' \<and> rest \<noteq> [] \<and> plain_name (tl rest))
          else plain_name t)"

datatype path_kind = PlainTag | Star | NoNamespace string | OtherPath

definition path_kind :: "string \<Rightarrow> path_kind" where
  "path_kind t =
     (if plain_tag t then PlainTag
      else if t = ''*'' then Star
      else if take 2 t = ''{}'' \<and> plain_name (drop 2 t) then NoNamespace (drop 2 t)
      else OtherPath)"

text \<open>The references to the children of \<open>parent\<close> that pass a test, in document order.\<close>

definition child_refs :: "(element \<Rightarrow> bool) \<Rightarrow> element \<Rightarrow> ref list" where
  "child_refs P parent =
     map (\<lambda>i. [i]) (filter (\<lambda>i. P (children parent ! i)) [0..<length (children parent)])"

type_synonym library = "element \<Rightarrow> string \<Rightarrow> error + ref list"

definition findall :: "library \<Rightarrow> element \<Rightarrow> string \<Rightarrow> error + ref list" where
  "findall lib parent t =
     (case path_kind t of
        PlainTag \<Rightarrow> Inr (child_refs (\<lambda>e. tag e = t) parent)
      | Star \<Rightarrow> Inr (child_refs (\<lambda>e. True) parent)
      | NoNamespace name \<Rightarrow> Inr (child_refs (\<lambda>e. tag e = name) parent)
      | OtherPath \<Rightarrow> lib parent t)"

text \<open>The \<open>tag\<close> argument of the lookup functions: one string, or an iterable of strings.\<close>

datatype tag_arg = Tag string | Tags "string list"

text \<open>
  The loop \<open>for t in tag: elements.extend(parent.findall(t))\<close>: the first exception ends it.
\<close>

fun findall_each :: "library \<Rightarrow> element \<Rightarrow> string list \<Rightarrow> error + ref list" where
  "findall_each lib parent [] = Inr []"
| "findall_each lib parent (t # ts) =
     (case findall lib parent t of
        Inl err \<Rightarrow> Inl err
      | Inr elements \<Rightarrow>
          (case findall_each lib parent ts of
             Inl err \<Rightarrow> Inl err
           | Inr more \<Rightarrow> Inr (elements @ more)))"

text \<open>
  The inner loop \<open>for key in attrib.keys()\<close> of \<open>find_all_children\<close>: the value of \<open>found\<close>.
  \<open>attrib[key]\<close> exists for every key of the dictionary, so comparing \<open>e.get(key, None)\<close>
  with it is comparing the two lookups.
\<close>

fun attrib_found :: "element \<Rightarrow> attrs \<Rightarrow> string list \<Rightarrow> bool" where
  "attrib_found e attr [] = True"
| "attrib_found e attr (key # keys) =
     (if get_attr e key \<noteq> map_of attr key then False else attrib_found e attr keys)"

text \<open>
  \<open>find_all_children\<close> returns the list of references, or the exception that \<open>findall\<close>
  raised. Its calls on the logger, and those of \<open>find_child\<close>, are debug diagnostics that
  do not influence what is returned or raised; they are not part of the model.
\<close>

definition find_all_children ::
  "library \<Rightarrow> element \<Rightarrow> tag_arg \<Rightarrow> attrs option \<Rightarrow> error + ref list" where
  "find_all_children lib parent tg attr =
     (case (case tg of
              Tag t \<Rightarrow> findall lib parent t
            | Tags ts \<Rightarrow> findall_each lib parent ts) of
        Inl err \<Rightarrow> Inl err
      | Inr elements \<Rightarrow>
          Inr (filter (\<lambda>r. if truthy attr
                            then attrib_found (get_at parent r) (the attr) (map fst (the attr))
                            else True) elements))"

text \<open>\<open>Inr None\<close> is the result \<open>None\<close> (absent).\<close>

definition find_child ::
  "library \<Rightarrow> element \<Rightarrow> tag_arg \<Rightarrow> attrs option \<Rightarrow> bool \<Rightarrow> error + ref option" where
  "find_child lib parent tg attr required =
     (case find_all_children lib parent tg attr of
        Inl err \<Rightarrow> Inl err
      | Inr matches \<Rightarrow>
          if length matches > 1 then Inl LookupError
          else if length matches = 0 then (if required then Inl KeyError else Inr None)
          else Inr (Some (matches ! 0)))"

subsection \<open>Find-or-create update\<close>

text \<open>
  \<open>set_or_make_child\<close> returns the parent as the call leaves it, the outcome (the exception
  raised, or the reference to the new or updated element) and the log of its \<open>add_child\<close>.
  \<open>txt\<close> is \<open>str(text)\<close>. In the last loop \<open>attrib[a]\<close> exists for every key \<open>a\<close>.
\<close>

definition set_or_make_child ::
  "library \<Rightarrow> element \<Rightarrow> string \<Rightarrow> string option \<Rightarrow> attrs option \<Rightarrow> string list option
     \<Rightarrow> string list option \<Rightarrow> element \<times> (error + ref) \<times> log_record list" where
  "set_or_make_child lib parent tg txt attr ord known_namespaces =
     (let attr1 = (case attr of None \<Rightarrow> [] | Some a \<Rightarrow> a) in
      case find_child lib parent (Tag tg) (Some attr1) False of
        Inl err \<Rightarrow> (parent, Inl err, [])
      | Inr found \<Rightarrow>
          (let (parent1, element, lg) =
                 (case found of
                    None \<Rightarrow>
                      (let new = Element tg [] None None [] in
                       (fst (add_child parent new ord known_namespaces),
                        [add_child_position parent new ord known_namespaces],
                        snd (add_child parent new ord known_namespaces)))
                  | Some r \<Rightarrow> (parent, r, []));
               parent2 = (case txt of
                            None \<Rightarrow> parent1
                          | Some t \<Rightarrow> update_at element (set_text (Some t)) parent1);
               parent3 = fold (\<lambda>a p. case map_of attr1 a of
                                       None \<Rightarrow> p
                                     | Some v \<Rightarrow> update_at element (set_attr a v) p)
                              (map fst attr1) parent2
           in (parent3, Inr element, lg)))"

subsection \<open>Serialization formatting\<close>

text \<open>\<open>"\\n" + (" " * depth)\<close>; a negative count gives no spaces.\<close>

definition indent :: "int \<Rightarrow> string" where
  "indent depth = CHR 0x0A # replicate (nat depth) CHR '' ''"

text \<open>
  \<open>xml_reindent\<close>: \<open>depth0\<close> is the argument, \<open>depth\<close> the variable after \<open>depth += 2\<close> and
  \<open>depth1\<close> after the conditional \<open>depth -= 2\<close>. \<open>cs\<close> are the children after the loop;
  \<open>last\<close> is not \<open>None\<close> exactly when there is a child.
\<close>

function xml_reindent :: "element \<Rightarrow> int \<Rightarrow> element" where
  "xml_reindent parent depth0 =
     (let depth = depth0 + 2;
          cs = map (\<lambda>elem. xml_reindent (set_tail (Some (indent depth)) elem) depth)
                   (children parent);
          (parent1, depth1) =
             (if cs \<noteq> []
              then (set_children (butlast cs @ [set_tail (Some (indent (depth - 2))) (last cs)])
                      (set_text (Some (indent depth)) parent),
                    depth - 2)
              else (parent, depth))
      in if depth1 = 0 then set_tail (Some [CHR 0x0A]) parent1 else parent1)"
  by pat_completeness auto
termination
proof (relation "measure (\<lambda>(parent, depth0). size parent)", goal_cases)
  case 1
  show ?case by simp
next
  case (2 parent depth0 depth elem)
  have "size (set_tail t elem) = size elem" for t
    by (cases elem) simp
  moreover have "size elem < size parent"
    using 2 by (cases parent) (auto simp: less_Suc_eq_le size_list_estimation')
  ultimately show ?case by simp
qed

text \<open>The defining equation recurses under a \<open>map\<close>; it is unfolded by hand.\<close>

declare xml_reindent.simps [simp del]


section \<open>Notions used in the statements\<close>

text \<open>
  The position of an element's tag in an ordering; the length of the ordering for a tag
  that is not listed.
\<close>

definition ordering_index :: "string list \<Rightarrow> element \<Rightarrow> nat" where
  "ordering_index ord e = (case index_of ord (tag e) of Some k \<Rightarrow> k | None \<Rightarrow> length ord)"

text \<open>
  The scan of \<open>add_child\<close> passes over a child exactly when its tag is listed at a position
  not greater than \<open>new_index\<close>.
\<close>

definition scan_passes :: "string list \<Rightarrow> nat \<Rightarrow> element \<Rightarrow> bool" where
  "scan_passes ord new_index child =
     (case index_of ord (tag child) of Some k \<Rightarrow> k \<le> new_index | None \<Rightarrow> False)"

text \<open>The tags a \<open>tag\<close> argument stands for.\<close>

fun tags_of :: "tag_arg \<Rightarrow> string list" where
  "tags_of (Tag t) = [t]"
| "tags_of (Tags ts) = ts"

text \<open>
  The attributes of \<open>e\<close> are a superset of the query: every key of the query is present
  on \<open>e\<close> with an equal value. An absent query asks nothing.
\<close>

definition attrs_superset :: "element \<Rightarrow> attrs option \<Rightarrow> bool" where
  "attrs_superset e attr =
     (case attr of None \<Rightarrow> True | Some a \<Rightarrow> map_of a \<subseteq>\<^sub>m map_of (attrib e))"

text \<open>The dictionary \<open>attrib\<close> of \<open>set_or_make_child\<close> after \<open>if attrib is None: attrib = {}\<close>.\<close>

definition attr_dict :: "attrs option \<Rightarrow> attrs" where
  "attr_dict attr = (case attr of None \<Rightarrow> [] | Some a \<Rightarrow> a)"

text \<open>
  An element is selected by a modelled path expression; it passes the tests of
  \<open>find_all_children\<close> for one such expression and a dictionary.
\<close>

definition selected_by :: "string \<Rightarrow> element \<Rightarrow> bool" where
  "selected_by t e =
     (case path_kind t of
        PlainTag \<Rightarrow> tag e = t
      | Star \<Rightarrow> True
      | NoNamespace name \<Rightarrow> tag e = name
      | OtherPath \<Rightarrow> False)"

definition is_match :: "string \<Rightarrow> attrs \<Rightarrow> element \<Rightarrow> bool" where
  "is_match tg a e = (selected_by tg e \<and> attrib_found e a (map fst a))"

text \<open>A mutation \<open>f\<close> of the child at position \<open>i\<close>: \<open>update_at [i] f\<close>.\<close>

definition update_child :: "nat \<Rightarrow> (element \<Rightarrow> element) \<Rightarrow> element \<Rightarrow> element" where
  "update_child i f parent =
     set_children ((children parent)[i := f (children parent ! i)]) parent"

text \<open>
  What \<open>set_or_make_child\<close> does to the element it found or made: the text, then the
  attributes in the order of the dictionary's keys.
\<close>

definition set_attrs :: "attrs \<Rightarrow> string list \<Rightarrow> element \<Rightarrow> element" where
  "set_attrs a ks =
     fold (\<lambda>k e. case map_of a k of None \<Rightarrow> e | Some v \<Rightarrow> set_attr k v e) ks"

definition finish :: "string option \<Rightarrow> attrs \<Rightarrow> element \<Rightarrow> element" where
  "finish txt a =
     (\<lambda>e. set_attrs a (map fst a) (case txt of None \<Rightarrow> e | Some t \<Rightarrow> set_text (Some t) e))"

text \<open>
  What \<open>xml_reindent\<close> may not touch. \<open>strip_layout\<close> forgets the layout fields: every tail,
  and the text of every element that has children; tags, attributes, the tree shape and
  the text of childless elements remain.
\<close>

fun strip_layout :: "element \<Rightarrow> element" where
  "strip_layout (Element tg at tx ta cs) =
     Element tg at (if cs = [] then tx else None) None (map strip_layout cs)"

text \<open>
  Whitespace-only text (or none), the text that counts, a document without mixed content
  (text beside child elements is whitespace only) and its semantic content.
\<close>

definition blank :: "string option \<Rightarrow> bool" where
  "blank x = (case x of
                None \<Rightarrow> True
              | Some s \<Rightarrow> list_all (\<lambda>c. c \<in> {CHR '' '', CHR 0x0A, CHR 0x09, CHR 0x0D}) s)"

definition significant :: "string option \<Rightarrow> string option" where
  "significant x = (if blank x then None else x)"

fun no_mixed_content :: "element \<Rightarrow> bool" where
  "no_mixed_content (Element tg at tx ta cs) =
     ((cs = [] \<or> blank tx) \<and> (\<forall>c\<in>set cs. blank (tail c) \<and> no_mixed_content c))"

fun content :: "element \<Rightarrow> element" where
  "content (Element tg at tx ta cs) =
     Element tg at (significant tx) (significant ta) (map content cs)"

text \<open>
  The layout of an element at depth \<open>d\<close> (the root has depth 0, each level adds 2): the
  whitespace before each child is a newline and \<open>d + 2\<close> spaces, the whitespace before the
  closing tag a newline and \<open>d\<close> spaces, and so on below.
\<close>

fun indented :: "int \<Rightarrow> element \<Rightarrow> bool" where
  "indented d (Element tg at tx ta cs) =
     (cs = [] \<or>
      (tx = Some (indent (d + 2)) \<and>
       (\<forall>c\<in>set (butlast cs). tail c = Some (indent (d + 2))) \<and>
       tail (last cs) = Some (indent d) \<and>
       (\<forall>c\<in>set cs. indented (d + 2) c)))"

section \<open>Ordered insertion: lemmas\<close>

lemma index_of_Some_iff: "(\<exists>k. index_of xs x = Some k) \<longleftrightarrow> x \<in> set xs"
  by (induction xs) auto

lemma index_of_None_iff: "index_of xs x = None \<longleftrightarrow> x \<notin> set xs"
  by (induction xs) auto

lemma children_set_children [simp]: "children (set_children cs p) = cs"
  by (cases p) simp

lemma set_children_children [simp]: "set_children (children p) p = p"
  by (cases p) simp

lemma set_children_twice [simp]: "set_children cs (set_children cs' p) = set_children cs p"
  by (cases p) simp

lemma scan_passes_listed:
  "tag c \<in> set ord \<Longrightarrow> scan_passes ord ni c \<longleftrightarrow> ordering_index ord c \<le> ni"
  using index_of_None_iff[of ord "tag c"]
  by (auto simp: scan_passes_def ordering_index_def split: option.splits)

lemma scan_passes_unlisted: "tag c \<notin> set ord \<Longrightarrow> \<not> scan_passes ord ni c"
  using index_of_None_iff[of ord "tag c"]
  by (auto simp: scan_passes_def split: option.splits)

lemma scan_fst:
  "fst (scan_children ord kns pt ni cs i) = i + length (takeWhile (scan_passes ord ni) cs)"
  by (induction cs arbitrary: i) (auto simp: scan_passes_def split: option.splits prod.splits)

lemma scan_found:
  "fst (snd (scan_children ord kns pt ni cs i)) \<longleftrightarrow> (\<exists>c\<in>set cs. \<not> scan_passes ord ni c)"
  by (induction cs arbitrary: i) (auto simp: scan_passes_def split: option.splits prod.splits)

lemma scan_stops_unlisted:
  assumes "\<forall>x\<in>set pre. scan_passes ord ni x" and "index_of ord (tag c) = None"
  shows "scan_children ord kns pt ni (pre @ c # post) i =
           (i + length pre, True,
            snd (in_known_namespaces kns (tag c)) @
              (if fst (in_known_namespaces kns (tag c))
               then snd (strip_ns pt) @ [ExistingChildNotExpected (tag c) (fst (strip_ns pt)) ord]
               else []))"
  using assms
  by (induction pre arbitrary: i) (auto simp: scan_passes_def split: option.splits prod.splits)

text \<open>With a listed new child, \<open>add_child\<close> splits the children where the scan stops.\<close>

lemma add_child_listed:
  assumes "index_of ord (tag new_child) = Some ni"
  shows "fst (add_child parent new_child (Some ord) kns) =
           set_children (takeWhile (scan_passes ord ni) (children parent) @ new_child #
              dropWhile (scan_passes ord ni) (children parent)) parent"
proof -
  let ?P = "scan_passes ord ni"
  let ?cs = "children parent"
  obtain i f lg where sc: "scan_children ord kns (tag parent) ni ?cs 0 = (i, f, lg)"
    by (cases "scan_children ord kns (tag parent) ni ?cs 0") auto
  from sc scan_fst[of ord kns "tag parent" ni ?cs 0]
  have i: "i = length (takeWhile ?P ?cs)" by simp
  from sc scan_found[of ord kns "tag parent" ni ?cs 0]
  have f: "f \<longleftrightarrow> (\<exists>c\<in>set ?cs. \<not> ?P c)" by simp
  from assms have mem: "tag new_child \<in> set ord" "ord \<noteq> []"
    using index_of_None_iff[of ord "tag new_child"] by auto
  have ins: "list_insert i new_child ?cs = takeWhile ?P ?cs @ new_child # dropWhile ?P ?cs"
    unfolding list_insert_def i
    by (simp add: takeWhile_eq_take[symmetric] dropWhile_eq_drop[symmetric])
  have app: "\<not> f \<Longrightarrow> ?cs @ [new_child] = takeWhile ?P ?cs @ new_child # dropWhile ?P ?cs"
    using f by (simp add: takeWhile_eq_all_conv[THEN iffD2] dropWhile_eq_Nil_conv[THEN iffD2])
  show ?thesis
    using mem assms sc ins app by (simp add: add_child_def)
qed

lemma add_child_unlisted:
  assumes "tag new_child \<notin> set ord"
  shows "fst (add_child parent new_child (Some ord) kns) =
           set_children (children parent @ [new_child]) parent"
  using assms by (auto simp: add_child_def split: prod.splits)

text \<open>The position that \<open>add_child_position\<close> names is where \<open>add_child\<close> puts the child.\<close>

lemma add_child_fst:
  "fst (add_child p c ord kns) =
     set_children (list_insert (add_child_position p c ord kns) c (children p)) p"
  "add_child_position p c ord kns \<le> length (children p)"
proof -
  let ?cs = "children p"
  have app: "?cs @ [c] = list_insert (length ?cs) c ?cs" by (simp add: list_insert_def)
  have "fst (add_child p c ord kns) =
          set_children (list_insert (add_child_position p c ord kns) c ?cs) p \<and>
        add_child_position p c ord kns \<le> length ?cs"
  proof (cases "truthy ord \<and> tag c \<in> set (the ord)")
    case False
    then show ?thesis
      by (auto simp: add_child_def add_child_position_def app split: prod.splits)
  next
    case True
    then obtain ni where ni: "index_of (the ord) (tag c) = Some ni"
      using index_of_Some_iff[of "the ord" "tag c"] by blast
    let ?P = "scan_passes (the ord) ni"
    obtain i f lg where sc: "scan_children (the ord) kns (tag p) ni ?cs 0 = (i, f, lg)"
      by (cases "scan_children (the ord) kns (tag p) ni ?cs 0") auto
    from sc scan_fst[of "the ord" kns "tag p" ni ?cs 0]
    have i: "i = length (takeWhile ?P ?cs)" by simp
    from sc scan_found[of "the ord" kns "tag p" ni ?cs 0]
    have f: "f \<longleftrightarrow> (\<exists>x\<in>set ?cs. \<not> ?P x)" by simp
    have le: "i \<le> length ?cs" unfolding i by (rule length_takeWhile_le)
    have full: "\<not> f \<Longrightarrow> i = length ?cs"
      using f unfolding i by (simp add: takeWhile_eq_all_conv[THEN iffD2])
    show ?thesis
      using True ni sc le full
      by (auto simp: add_child_def add_child_position_def app)
  qed
  then show "fst (add_child p c ord kns) =
     set_children (list_insert (add_child_position p c ord kns) c (children p)) p"
    and "add_child_position p c ord kns \<le> length (children p)" by simp_all
qed

text \<open>Nothing that \<open>get_ns\<close> and \<open>strip_ns\<close> log is a warning.\<close>

lemma no_warning_strip_ns: "filter is_warning (snd (strip_ns t)) = []"
  by (auto simp: strip_ns_def split: option.splits)

lemma no_warning_in_known: "filter is_warning (snd (in_known_namespaces kns t)) = []"
  by (auto simp: in_known_namespaces_def get_ns_def split: prod.splits option.splits)

lemma in_known_namespaces_fst:
  "fst (in_known_namespaces kns t) \<longleftrightarrow> truthy kns \<and> fst (get_ns t) \<in> set (the kns)"
  by (auto simp: in_known_namespaces_def split: prod.splits)

lemma warning_logged_iff:
  "(\<exists>r\<in>set lg. is_warning r) \<longleftrightarrow> filter is_warning lg \<noteq> []"
  by (simp add: filter_empty_conv)


text \<open>
  Appending to the input of a stable sort puts the new element behind everything whose
  key is not greater.
\<close>

lemma dropWhile_sorted_gt:
  "sorted (map f xs) \<Longrightarrow> y \<in> set (dropWhile (\<lambda>x. f x \<le> a) xs) \<Longrightarrow> a < (f y :: nat)"
  by (induction xs) (auto split: if_splits)

lemma sort_key_snoc:
  fixes f :: "'a \<Rightarrow> nat"
  shows "sort_key f (xs @ [c]) =
     takeWhile (\<lambda>x. f x \<le> f c) (sort_key f xs) @ c #
     dropWhile (\<lambda>x. f x \<le> f c) (sort_key f xs)"
proof (rule properties_for_sort_key)
  let ?S = "sort_key f xs"
  let ?tw = "takeWhile (\<lambda>x. f x \<le> f c) ?S"
  let ?dw = "dropWhile (\<lambda>x. f x \<le> f c) ?S"
  have srt: "sorted (map f ?S)" by simp
  have gt: "\<And>y. y \<in> set ?dw \<Longrightarrow> f c < f y"
    using dropWhile_sorted_gt[OF srt] by blast
  have le: "\<And>y. y \<in> set ?tw \<Longrightarrow> f y \<le> f c"
    by (auto dest: set_takeWhileD)
  have "mset ?tw + mset ?dw = mset ?S"
    by (metis mset_append takeWhile_dropWhile_id)
  then show "mset (?tw @ c # ?dw) = mset (xs @ [c])" by simp
  have s1: "sorted (map f ?tw)" and s2: "sorted (map f ?dw)"
    using srt by (metis map_append sorted_append takeWhile_dropWhile_id)+
  show "sorted (map f (?tw @ c # ?dw))"
    using s1 s2 gt le by (fastforce simp: sorted_append)
  fix k assume "k \<in> set (?tw @ c # ?dw)"
  have parts: "filter (\<lambda>x. f k = f x) ?tw @ filter (\<lambda>x. f k = f x) ?dw =
               filter (\<lambda>x. f k = f x) xs"
  proof -
    have "filter (\<lambda>x. f k = f x) ?tw @ filter (\<lambda>x. f k = f x) ?dw =
          filter (\<lambda>x. f k = f x) ?S"
      by (metis filter_append takeWhile_dropWhile_id)
    also have "\<dots> = filter (\<lambda>x. f k = f x) xs"
      using sort_key_stable[of f "f k" xs] by (simp add: eq_commute)
    finally show ?thesis .
  qed
  show "filter (\<lambda>x. f k = f x) (?tw @ c # ?dw) = filter (\<lambda>x. f k = f x) (xs @ [c])"
  proof (cases "f k = f c")
    case True
    have "\<And>y. y \<in> set ?dw \<Longrightarrow> f k \<noteq> f y"
      using gt True by fastforce
    then have "filter (\<lambda>x. f k = f x) ?dw = []"
      unfolding filter_empty_conv by blast
    with parts True show ?thesis by simp
  next
    case False
    with parts show ?thesis by simp
  qed
qed

lemma takeWhile_prefix_fail:
  assumes "\<forall>x\<in>set ys. \<not> P x"
  shows "takeWhile P (xs @ ys) = takeWhile P xs"
    and "dropWhile P (xs @ ys) = dropWhile P xs @ ys"
  using assms
  by (induction xs) (auto simp: takeWhile_eq_Nil_iff dropWhile_eq_self_iff hd_in_set)

text \<open>
  The invariant of repeated insertion: the listed children, stably sorted, come first;
  the unlisted ones follow.
\<close>

lemma add_child_invariant:
  assumes "children parent = ins @ outs"
    and "set (map tag ins) \<subseteq> set ord" and "\<forall>x\<in>set outs. tag x \<notin> set ord"
    and "ins = sort_key (ordering_index ord) xs"
  shows "\<exists>outs'. children (fst (add_child parent c (Some ord) kns)) =
            sort_key (ordering_index ord) (xs @ filter (\<lambda>e. tag e \<in> set ord) [c]) @ outs'
          \<and> (\<forall>x\<in>set outs'. tag x \<notin> set ord)"
proof (cases "tag c \<in> set ord")
  case False
  then show ?thesis
    using assms by (simp add: add_child_unlisted)
next
  case True
  then obtain ni where ni: "index_of ord (tag c) = Some ni"
    using index_of_Some_iff[of ord "tag c"] by blast
  then have nic: "ordering_index ord c = ni" by (simp add: ordering_index_def)
  let ?P = "scan_passes ord ni"
  have outs: "\<forall>x\<in>set outs. \<not> ?P x"
    using assms(3) scan_passes_unlisted by blast
  have tw: "takeWhile ?P ins =
            takeWhile (\<lambda>x. ordering_index ord x \<le> ordering_index ord c) ins"
    using assms(2) by (intro takeWhile_cong) (auto simp: scan_passes_listed nic)
  have dw: "dropWhile ?P ins =
            dropWhile (\<lambda>x. ordering_index ord x \<le> ordering_index ord c) ins"
    using assms(2) by (intro dropWhile_cong) (auto simp: scan_passes_listed nic)
  have "children (fst (add_child parent c (Some ord) kns)) =
          (takeWhile ?P ins @ c # dropWhile ?P ins) @ outs"
    by (simp add: add_child_listed[OF ni] assms(1) takeWhile_prefix_fail[OF outs])
  also have "takeWhile ?P ins @ c # dropWhile ?P ins =
             sort_key (ordering_index ord) (xs @ [c])"
    by (simp only: tw dw) (simp only: assms(4) sort_key_snoc)
  finally show ?thesis
    using True assms(3) by auto
qed

lemma add_children_invariant:
  assumes "children parent = []"
  shows "\<exists>outs. children (fold (\<lambda>c p. fst (add_child p c (Some ord) kns)) cs parent) =
            sort_key (ordering_index ord) (filter (\<lambda>e. tag e \<in> set ord) cs) @ outs
          \<and> (\<forall>x\<in>set outs. tag x \<notin> set ord)"
proof (induction cs rule: rev_induct)
  case Nil
  then show ?case using assms by simp
next
  case (snoc c cs)
  let ?p = "fold (\<lambda>c p. fst (add_child p c (Some ord) kns)) cs parent"
  let ?xs = "filter (\<lambda>e. tag e \<in> set ord) cs"
  from snoc obtain outs where o: "children ?p = sort_key (ordering_index ord) ?xs @ outs"
     "\<forall>x\<in>set outs. tag x \<notin> set ord" by blast
  have sub: "set (map tag (sort_key (ordering_index ord) ?xs)) \<subseteq> set ord" by auto
  from add_child_invariant[OF o(1) sub o(2) refl, of c kns]
  show ?case by simp
qed

lemma filter_listed_prefix:
  assumes "\<forall>x\<in>set outs. \<not> P x" and "\<forall>x\<in>set ins. P x"
  shows "filter P (ins @ outs) = ins"
  using assms by (simp add: filter_empty_conv[THEN iffD2] filter_id_conv[THEN iffD2])

section \<open>Ordered insertion: the claims\<close>

text \<open>
  Claim C1. Start from a parent without children and add any sequence \<open>cs\<close> of children,
  each with \<open>add_child\<close> under the same ordering \<open>ord\<close> and the same known namespaces.
  Then the final children whose tags are listed in \<open>ord\<close> are the listed elements of \<open>cs\<close>
  stably sorted by their position in \<open>ord\<close>: they are sorted by that position, and those
  at the same position stand in the order in which they were inserted.
\<close>

theorem add_child_sequence_stable_sorted:
  assumes "children parent = []"
  shows "filter (\<lambda>e. tag e \<in> set ord)
           (children (fold (\<lambda>c p. fst (add_child p c (Some ord) kns)) cs parent)) =
         sort_key (ordering_index ord) (filter (\<lambda>e. tag e \<in> set ord) cs) \<and>
         sorted (map (ordering_index ord)
           (filter (\<lambda>e. tag e \<in> set ord)
              (children (fold (\<lambda>c p. fst (add_child p c (Some ord) kns)) cs parent)))) \<and>
         (\<forall>k. filter (\<lambda>e. ordering_index ord e = k)
                (filter (\<lambda>e. tag e \<in> set ord)
                   (children (fold (\<lambda>c p. fst (add_child p c (Some ord) kns)) cs parent))) =
              filter (\<lambda>e. ordering_index ord e = k) (filter (\<lambda>e. tag e \<in> set ord) cs))"
proof -
  let ?final = "children (fold (\<lambda>c p. fst (add_child p c (Some ord) kns)) cs parent)"
  let ?listed = "filter (\<lambda>e. tag e \<in> set ord) cs"
  from add_children_invariant[OF assms, of ord kns cs] obtain outs where
    o: "?final = sort_key (ordering_index ord) ?listed @ outs"
       "\<forall>x\<in>set outs. tag x \<notin> set ord" by blast
  have eq: "filter (\<lambda>e. tag e \<in> set ord) ?final = sort_key (ordering_index ord) ?listed"
    unfolding o(1) by (rule filter_listed_prefix) (use o(2) in auto)
  show ?thesis
    unfolding eq by (simp add: sort_key_stable)
qed

theorem add_child_sequence_stable_sorted_witness:
  "map tag (filter (\<lambda>e. tag e \<in> set [''Info'', ''References'', ''DiskSection''])
     (children
        (fold (\<lambda>c p. fst (add_child p c (Some [''Info'', ''References'', ''DiskSection'']) None))
           [Element ''DiskSection'' [] None None [], Element ''Custom'' [] None None [],
            Element ''Info'' [] None None [],
            Element ''DiskSection'' [(''id'', ''2'')] None None [],
            Element ''References'' [] None None []]
           (Element ''Envelope'' [] None None [])))) =
   [''Info'', ''References'', ''DiskSection'', ''DiskSection'']"
  using add_child_sequence_stable_sorted[of "Element ''Envelope'' [] None None []"
        "[''Info'', ''References'', ''DiskSection'']" None
        "[Element ''DiskSection'' [] None None [], Element ''Custom'' [] None None [],
          Element ''Info'' [] None None [],
          Element ''DiskSection'' [(''id'', ''2'')] None None [],
          Element ''References'' [] None None []]"]
  by (simp add: ordering_index_def)


text \<open>
  Claim C3. When the ordering is supplied, the new child's tag is listed in it at
  \<open>new_index\<close> and the tag of every existing child is listed too, \<open>add_child\<close> puts the new
  child immediately before the first existing child whose position in the ordering is
  strictly greater than \<open>new_index\<close>, and at the end when there is none; the parent is
  otherwise unchanged. In particular, adding \<open>References\<close> to the children
  \<open>[Info, DiskSection]\<close> under the ordering \<open>[Info, References, DiskSection]\<close> gives
  \<open>[Info, References, DiskSection]\<close>.
\<close>

theorem add_child_before_first_greater:
  assumes "index_of ord (tag new_child) = Some new_index"
    and "\<forall>c\<in>set (children parent). tag c \<in> set ord"
  shows "fst (add_child parent new_child (Some ord) kns) =
           set_children
             (takeWhile (\<lambda>c. ordering_index ord c \<le> new_index) (children parent) @
              new_child #
              dropWhile (\<lambda>c. ordering_index ord c \<le> new_index) (children parent)) parent \<and>
         fst (add_child
                (Element ''Envelope'' [] None None
                   [Element ''Info'' [] None None [], Element ''DiskSection'' [] None None []])
                (Element ''References'' [] None None [])
                (Some [''Info'', ''References'', ''DiskSection'']) kns) =
           Element ''Envelope'' [] None None
             [Element ''Info'' [] None None [], Element ''References'' [] None None [],
              Element ''DiskSection'' [] None None []]"
proof -
  have general: "fst (add_child p c (Some ord') kns) =
           set_children
             (takeWhile (\<lambda>c. ordering_index ord' c \<le> ni) (children p) @ c #
              dropWhile (\<lambda>c. ordering_index ord' c \<le> ni) (children p)) p"
    if "index_of ord' (tag c) = Some ni" and "\<forall>x\<in>set (children p). tag x \<in> set ord'"
    for p c ord' ni
  proof -
    have "takeWhile (scan_passes ord' ni) (children p) =
          takeWhile (\<lambda>c. ordering_index ord' c \<le> ni) (children p)"
      using that(2) by (intro takeWhile_cong) (auto simp: scan_passes_listed)
    moreover have "dropWhile (scan_passes ord' ni) (children p) =
          dropWhile (\<lambda>c. ordering_index ord' c \<le> ni) (children p)"
      using that(2) by (intro dropWhile_cong) (auto simp: scan_passes_listed)
    ultimately show ?thesis
      by (simp add: add_child_listed[OF that(1)])
  qed
  have "fst (add_child
                (Element ''Envelope'' [] None None
                   [Element ''Info'' [] None None [], Element ''DiskSection'' [] None None []])
                (Element ''References'' [] None None [])
                (Some [''Info'', ''References'', ''DiskSection'']) kns) =
           Element ''Envelope'' [] None None
             [Element ''Info'' [] None None [], Element ''References'' [] None None [],
              Element ''DiskSection'' [] None None []]"
    using general[of "[''Info'', ''References'', ''DiskSection'']"
        "Element ''References'' [] None None []" 1
        "Element ''Envelope'' [] None None
           [Element ''Info'' [] None None [], Element ''DiskSection'' [] None None []]"]
    by (simp add: ordering_index_def)
  with general[OF assms] show ?thesis by simp
qed

theorem add_child_before_first_greater_witness:
  "fst (add_child
          (Element ''Envelope'' [] None None
             [Element ''Info'' [] None None [], Element ''Product'' [] None None [],
              Element ''DiskSection'' [] None None [], Element ''DiskSection'' [] None None []])
          (Element ''Product'' [(''class'', ''new'')] None None [])
          (Some [''Info'', ''Product'', ''References'', ''DiskSection'']) (Some [''urn:ovf''])) =
   Element ''Envelope'' [] None None
     [Element ''Info'' [] None None [], Element ''Product'' [] None None [],
      Element ''Product'' [(''class'', ''new'')] None None [],
      Element ''DiskSection'' [] None None [], Element ''DiskSection'' [] None None []]"
  using add_child_before_first_greater[of "[''Info'', ''Product'', ''References'', ''DiskSection'']"
        "Element ''Product'' [(''class'', ''new'')] None None []" 1
        "Element ''Envelope'' [] None None
           [Element ''Info'' [] None None [], Element ''Product'' [] None None [],
            Element ''DiskSection'' [] None None [], Element ''DiskSection'' [] None None []]"
        "Some [''urn:ovf'']"]
  by (simp add: ordering_index_def)

text \<open>
  Claim C4, as stated, fails: the first existing child whose tag is not in the ordering
  is not the insertion boundary when an earlier child already has a greater position.
  Below, \<open>Info\<close> is put before \<open>DiskSection\<close>, not immediately before the unlisted
  \<open>Custom\<close>, and nothing is logged although \<open>Custom\<close>'s namespace is known.
\<close>

theorem add_child_unlisted_sibling_counterexample:
  "add_child
     (Element ''{o}Envelope'' [] None None
        [Element ''{o}DiskSection'' [] None None [], Element ''{k}Custom'' [] None None []])
     (Element ''{o}Info'' [] None None [])
     (Some [''{o}Info'', ''{o}DiskSection'']) (Some [''k'']) =
   (Element ''{o}Envelope'' [] None None
      [Element ''{o}Info'' [] None None [], Element ''{o}DiskSection'' [] None None [],
       Element ''{k}Custom'' [] None None []], []) \<and>
   ''{o}Info'' \<in> set [''{o}Info'', ''{o}DiskSection''] \<and>
   ''{o}DiskSection'' \<in> set [''{o}Info'', ''{o}DiskSection''] \<and>
   ''{k}Custom'' \<notin> set [''{o}Info'', ''{o}DiskSection''] \<and>
   fst (get_ns ''{k}Custom'') \<in> set [''k'']"
  by (simp add: add_child_def get_ns_def match_braces_def first_line_def list_insert_def)

text \<open>
  Claim C4, amended. The new child's tag is listed at \<open>new_index\<close>. If the scan reaches a
  child \<open>c\<close> whose tag is not in the ordering, that is every child before \<open>c\<close> is listed at
  a position not greater than \<open>new_index\<close>, then the new child is inserted immediately
  before \<open>c\<close>, the children after \<open>c\<close> are not looked at, and a warning is logged if and
  only if the known namespaces are supplied and contain the namespace of \<open>c\<close>.
\<close>

theorem add_child_stops_at_unlisted_sibling:
  assumes "index_of ord (tag new_child) = Some new_index"
    and "children parent = pre @ c # post"
    and "\<forall>x\<in>set pre. \<exists>k. index_of ord (tag x) = Some k \<and> k \<le> new_index"
    and "index_of ord (tag c) = None"
  shows "fst (add_child parent new_child (Some ord) kns) =
           set_children (pre @ new_child # c # post) parent \<and>
         ((\<exists>r\<in>set (snd (add_child parent new_child (Some ord) kns)). is_warning r) \<longleftrightarrow>
            truthy kns \<and> fst (get_ns (tag c)) \<in> set (the kns))"
proof -
  have pre: "\<forall>x\<in>set pre. scan_passes ord new_index x"
    using assms(3) by (auto simp: scan_passes_def)
  have mem: "tag new_child \<in> set ord" "ord \<noteq> []"
    using assms(1) index_of_None_iff[of ord "tag new_child"] by auto
  note sc = scan_stops_unlisted[OF pre assms(4), of kns "tag parent" post 0]
  have tree: "fst (add_child parent new_child (Some ord) kns) =
           set_children (pre @ new_child # c # post) parent"
    using mem assms(1) by (simp add: add_child_def assms(2) sc list_insert_def)
  have lg: "snd (add_child parent new_child (Some ord) kns) =
          snd (in_known_namespaces kns (tag c)) @
              (if fst (in_known_namespaces kns (tag c))
               then snd (strip_ns (tag parent)) @
                    [ExistingChildNotExpected (tag c) (fst (strip_ns (tag parent))) ord]
               else [])"
    using mem assms(1) by (simp add: add_child_def assms(2) sc)
  have "(\<exists>r\<in>set (snd (add_child parent new_child (Some ord) kns)). is_warning r) \<longleftrightarrow>
           truthy kns \<and> fst (get_ns (tag c)) \<in> set (the kns)"
    unfolding warning_logged_iff lg
    by (simp add: no_warning_in_known no_warning_strip_ns in_known_namespaces_fst)
  with tree show ?thesis by simp
qed

theorem add_child_stops_at_unlisted_sibling_witness:
  "fst (add_child
     (Element ''{o}Envelope'' [] None None
        [Element ''{o}Info'' [] None None [], Element ''{k}Custom'' [] None None [],
         Element ''{o}DiskSection'' [] None None []])
     (Element ''{o}Info'' [(''id'', ''2'')] None None [])
     (Some [''{o}Info'', ''{o}DiskSection'']) (Some [''k''])) =
   Element ''{o}Envelope'' [] None None
      [Element ''{o}Info'' [] None None [], Element ''{o}Info'' [(''id'', ''2'')] None None [],
       Element ''{k}Custom'' [] None None [], Element ''{o}DiskSection'' [] None None []] \<and>
   (\<exists>r\<in>set (snd (add_child
     (Element ''{o}Envelope'' [] None None
        [Element ''{o}Info'' [] None None [], Element ''{k}Custom'' [] None None [],
         Element ''{o}DiskSection'' [] None None []])
     (Element ''{o}Info'' [(''id'', ''2'')] None None [])
     (Some [''{o}Info'', ''{o}DiskSection'']) (Some [''k'']))). is_warning r)"
  using add_child_stops_at_unlisted_sibling[of "[''{o}Info'', ''{o}DiskSection'']"
        "Element ''{o}Info'' [(''id'', ''2'')] None None []" 0
        "Element ''{o}Envelope'' [] None None
          [Element ''{o}Info'' [] None None [], Element ''{k}Custom'' [] None None [],
           Element ''{o}DiskSection'' [] None None []]"
        "[Element ''{o}Info'' [] None None []]" "Element ''{k}Custom'' [] None None []"
        "[Element ''{o}DiskSection'' [] None None []]" "Some [''k'']"]
  by (simp add: get_ns_def match_braces_def first_line_def)


text \<open>
  Claim C5, as stated, fails for an ordering that is supplied but empty: \<open>if ordering\<close> is
  then false, the first branch is skipped and no warning is logged although the new
  child's namespace is known.
\<close>

theorem add_child_empty_ordering_counterexample:
  "add_child (Element ''{o}Envelope'' [] None None [Element ''{o}Info'' [] None None []])
     (Element ''{k}Custom'' [] None None []) (Some []) (Some [''k'']) =
   (Element ''{o}Envelope'' [] None None
      [Element ''{o}Info'' [] None None [], Element ''{k}Custom'' [] None None []], []) \<and>
   ''{k}Custom'' \<notin> set [] \<and>
   fst (get_ns ''{k}Custom'') \<in> set [''k'']"
  by (simp add: add_child_def get_ns_def match_braces_def first_line_def)

text \<open>
  Claim C5, amended. If the ordering is supplied and not empty and the new child's tag is
  not listed in it, \<open>add_child\<close> appends the new child after all existing children, and a
  warning is logged if and only if the known namespaces are supplied and contain the new
  child's namespace. In particular a \<open>Custom\<close> element of the namespace \<open>urn:unknown\<close>,
  which is not a known namespace, is appended and nothing is logged.
\<close>

theorem add_child_unlisted_new_child:
  assumes "ord \<noteq> []" and "tag new_child \<notin> set ord"
  shows "fst (add_child parent new_child (Some ord) kns) =
           set_children (children parent @ [new_child]) parent \<and>
         ((\<exists>r\<in>set (snd (add_child parent new_child (Some ord) kns)). is_warning r) \<longleftrightarrow>
            truthy kns \<and> fst (get_ns (tag new_child)) \<in> set (the kns)) \<and>
         add_child (Element ''{urn:ovf}Envelope'' [] None None
                      [Element ''{urn:ovf}Info'' [] None None []])
           (Element ''{urn:unknown}Custom'' [] None None [])
           (Some [''{urn:ovf}Info'', ''{urn:ovf}DiskSection'']) (Some [''urn:ovf'']) =
           (Element ''{urn:ovf}Envelope'' [] None None
              [Element ''{urn:ovf}Info'' [] None None [],
               Element ''{urn:unknown}Custom'' [] None None []], [])"
proof -
  have tree: "fst (add_child parent new_child (Some ord) kns) =
           set_children (children parent @ [new_child]) parent"
    using assms(2) by (rule add_child_unlisted)
  have lg: "snd (add_child parent new_child (Some ord) kns) =
          snd (in_known_namespaces kns (tag new_child)) @
              (if fst (in_known_namespaces kns (tag new_child))
               then snd (strip_ns (tag parent)) @
                    [NewChildNotExpected (tag new_child) (fst (strip_ns (tag parent))) ord]
               else [])"
    using assms by (simp add: add_child_def split: prod.splits)
  have warn: "(\<exists>r\<in>set (snd (add_child parent new_child (Some ord) kns)). is_warning r) \<longleftrightarrow>
           truthy kns \<and> fst (get_ns (tag new_child)) \<in> set (the kns)"
    unfolding warning_logged_iff lg
    by (simp add: no_warning_in_known no_warning_strip_ns in_known_namespaces_fst)
  have "add_child (Element ''{urn:ovf}Envelope'' [] None None
                      [Element ''{urn:ovf}Info'' [] None None []])
           (Element ''{urn:unknown}Custom'' [] None None [])
           (Some [''{urn:ovf}Info'', ''{urn:ovf}DiskSection'']) (Some [''urn:ovf'']) =
           (Element ''{urn:ovf}Envelope'' [] None None
              [Element ''{urn:ovf}Info'' [] None None [],
               Element ''{urn:unknown}Custom'' [] None None []], [])"
    by (simp add: add_child_def in_known_namespaces_def get_ns_def match_braces_def
        first_line_def)
  with tree warn show ?thesis by simp
qed

theorem add_child_unlisted_new_child_witness:
  "fst (add_child (Element ''{o}Envelope'' [] None None [Element ''{o}Info'' [] None None []])
          (Element ''{k}Custom'' [] None None []) (Some [''{o}Info'']) (Some [''k''])) =
     Element ''{o}Envelope'' [] None None
       [Element ''{o}Info'' [] None None [], Element ''{k}Custom'' [] None None []] \<and>
   (\<exists>r\<in>set (snd (add_child
          (Element ''{o}Envelope'' [] None None [Element ''{o}Info'' [] None None []])
          (Element ''{k}Custom'' [] None None []) (Some [''{o}Info'']) (Some [''k'']))).
      is_warning r)"
  using add_child_unlisted_new_child[of "[''{o}Info'']" "Element ''{k}Custom'' [] None None []"
        "Element ''{o}Envelope'' [] None None [Element ''{o}Info'' [] None None []]"
        "Some [''k'']"]
  by (simp add: get_ns_def match_braces_def first_line_def)


section \<open>Lookup: lemmas\<close>

lemma map_nth_filter_upt:
  "map ((!) xs) (filter (\<lambda>i. P (xs ! i)) [0..<length xs]) = filter P xs"
proof -
  have "filter P xs = filter P (map ((!) xs) [0..<length xs])" by (simp add: map_nth)
  also have "\<dots> = map ((!) xs) (filter (P \<circ> (!) xs) [0..<length xs])" by (rule filter_map)
  finally show ?thesis by (simp add: comp_def)
qed

lemma attrib_found_iff:
  "attrib_found e a keys \<longleftrightarrow> (\<forall>k\<in>set keys. map_of (attrib e) k = map_of a k)"
  by (induction keys) (auto simp: get_attr_def)

lemma attrib_found_superset:
  "attrib_found e a (map fst a) \<longleftrightarrow> map_of a \<subseteq>\<^sub>m map_of (attrib e)"
  by (auto simp: attrib_found_iff map_le_def dom_map_of_conv_image_fst)

lemma attr_filter_conv:
  "(if truthy attr then attrib_found e (the attr) (map fst (the attr)) else True) =
   attrs_superset e attr"
  by (cases attr) (auto simp: attrs_superset_def attrib_found_superset)

lemma get_at_single [simp]: "get_at p [i] = children p ! i"
  by simp

lemma filter_child_refs:
  "filter (\<lambda>r. Q (get_at p r)) (child_refs P p) = child_refs (\<lambda>e. P e \<and> Q e) p"
  by (simp add: child_refs_def filter_map comp_def)

lemma map_get_at_child_refs: "map (get_at p) (child_refs P p) = filter P (children p)"
  by (simp add: child_refs_def comp_def map_nth_filter_upt)

lemma findall_modelled:
  "path_kind t \<noteq> OtherPath \<Longrightarrow> findall lib p t = Inr (child_refs (selected_by t) p)"
  by (cases "path_kind t") (simp_all add: findall_def selected_by_def[abs_def])

lemma path_kind_plain: "plain_tag t \<Longrightarrow> path_kind t = PlainTag"
  by (simp add: path_kind_def)

lemma selected_by_plain: "plain_tag t \<Longrightarrow> selected_by t e \<longleftrightarrow> tag e = t"
  by (simp add: selected_by_def path_kind_plain)

lemma findall_plain:
  "plain_tag t \<Longrightarrow> findall lib p t = Inr (child_refs (\<lambda>e. tag e = t) p)"
  by (simp add: findall_def path_kind_plain)

lemma findall_each_plain:
  "\<forall>t\<in>set ts. plain_tag t \<Longrightarrow>
   findall_each lib p ts = Inr (concat (map (\<lambda>t. child_refs (\<lambda>e. tag e = t) p) ts))"
  by (induction ts) (simp_all add: findall_plain)

lemma find_all_children_None:
  "find_all_children lib p tg None = find_all_children lib p tg (Some [])"
  by (simp add: find_all_children_def split: sum.splits)

lemma find_all_children_attr_dict:
  "find_all_children lib p tg (Some (attr_dict attr)) = find_all_children lib p tg attr"
  by (cases attr) (simp_all add: attr_dict_def find_all_children_None)

lemma find_all_children_Tag:
  assumes "path_kind tg \<noteq> OtherPath"
  shows "find_all_children lib p (Tag tg) (Some a) = Inr (child_refs (is_match tg a) p)"
proof -
  have "filter (\<lambda>r. if truthy (Some a)
                      then attrib_found (get_at p r) (the (Some a)) (map fst (the (Some a)))
                      else True) rs =
        filter (\<lambda>r. attrib_found (get_at p r) a (map fst a)) rs" for rs
    by (cases "a = []") simp_all
  then show ?thesis
    by (simp add: find_all_children_def findall_modelled[OF assms] is_match_def[abs_def]
        filter_child_refs[of "\<lambda>e. attrib_found e a (map fst a)"])
qed

lemma path_kind_star: "path_kind ''*'' = Star"
  by (simp add: path_kind_def plain_tag_def plain_name_def name_start_def)

section \<open>Lookup: the claims\<close>

text \<open>
  Claim C7, as stated, fails for a tag that is a path expression: with the tag \<open>*\<close> the
  lookup returns every child, here two children whose tags are \<open>A\<close> and \<open>B\<close>, neither of
  which equals the given tag. The parameter plays no part, \<open>*\<close> being a modelled
  expression: the lemma after the theorem has the same for every library.
\<close>

theorem find_all_children_star_counterexample:
  "find_all_children (\<lambda>p t. Inl SyntaxError)
     (Element ''P'' [] None None
        [Element ''A'' [] None None [], Element ''B'' [] None None []])
     (Tag ''*'') None = Inr [[0], [1]] \<and>
   tag (Element ''A'' [] None None []) \<noteq> ''*'' \<and>
   tag (Element ''B'' [] None None []) \<noteq> ''*''"
  by (simp add: find_all_children_def findall_def path_kind_def plain_tag_def plain_name_def
      name_start_def child_refs_def)

lemma find_all_children_star_any_library:
  "find_all_children lib parent (Tag ''*'') None = Inr (map (\<lambda>i. [i]) [0..<length (children parent)])"
  by (simp add: find_all_children_def findall_def path_kind_star child_refs_def)

text \<open>
  Claim C7, amended. When every given tag is a plain tag (a name, or \<open>{uri}name\<close>, without
  path syntax), \<open>find_all_children\<close> returns exactly the direct children of the parent whose
  tag equals one of the given tags and whose attributes contain every key of the query
  with an equal value: for each given tag in turn, the references to the matching
  children in document order, and nothing when no child matches.
\<close>

theorem find_all_children_exact:
  assumes "\<forall>t\<in>set (tags_of tg). plain_tag t"
  shows "find_all_children lib parent tg attr =
           Inr (concat (map (\<lambda>t. child_refs (\<lambda>e. tag e = t \<and> attrs_superset e attr) parent)
                          (tags_of tg))) \<and>
         (\<forall>refs. find_all_children lib parent tg attr = Inr refs \<longrightarrow>
            map (get_at parent) refs =
              concat (map (\<lambda>t. filter (\<lambda>e. tag e = t \<and> attrs_superset e attr)
                                  (children parent)) (tags_of tg)))"
proof -
  let ?A = "\<lambda>e. attrs_superset e attr"
  let ?F = "filter (\<lambda>r. if truthy attr
                          then attrib_found (get_at parent r) (the attr) (map fst (the attr))
                          else True)"
  have F: "?F rs = filter (\<lambda>r. ?A (get_at parent r)) rs" for rs
    by (simp add: attr_filter_conv)
  have one: "?F (child_refs (\<lambda>e. tag e = t) parent) =
             child_refs (\<lambda>e. tag e = t \<and> ?A e) parent" for t
    unfolding F by (rule filter_child_refs)
  have refs: "find_all_children lib parent tg attr =
           Inr (concat (map (\<lambda>t. child_refs (\<lambda>e. tag e = t \<and> ?A e) parent) (tags_of tg)))"
  proof (cases tg)
    case (Tag t)
    with assms have "plain_tag t" by simp
    then show ?thesis
      using Tag one[of t] by (simp add: find_all_children_def findall_plain)
  next
    case (Tags ts)
    with assms have pl: "\<forall>t\<in>set ts. plain_tag t" by simp
    have "?F (concat (map (\<lambda>t. child_refs (\<lambda>e. tag e = t) parent) ts)) =
          concat (map (\<lambda>t. child_refs (\<lambda>e. tag e = t \<and> ?A e) parent) ts)"
      by (induction ts) (simp_all only: list.map concat.simps filter.simps filter_append one)
    with Tags show ?thesis
      by (simp add: find_all_children_def findall_each_plain[OF pl])
  qed
  have "map (get_at parent)
          (concat (map (\<lambda>t. child_refs (\<lambda>e. tag e = t \<and> ?A e) parent) ts)) =
        concat (map (\<lambda>t. filter (\<lambda>e. tag e = t \<and> ?A e) (children parent)) ts)" for ts
    by (induction ts) (simp_all add: map_get_at_child_refs)
  with refs show ?thesis by simp
qed

theorem find_all_children_exact_witness:
  "find_all_children (\<lambda>p t. Inl SyntaxError)
        (Element ''P'' [] None None
           [Element ''A'' [(''id'', ''1'')] None None [],
            Element ''{u}B'' [(''id'', ''1''), (''x'', ''y'')] None None [],
            Element ''A'' [(''id'', ''2'')] None None [],
            Element ''C'' [(''id'', ''1'')] None None [],
            Element ''A'' [(''x'', ''y''), (''id'', ''1'')] None None []])
        (Tags [''{u}B'', ''A'']) (Some [(''id'', ''1'')]) = Inr [[1], [0], [4]]"
  using find_all_children_exact[of "Tags [''{u}B'', ''A'']" "\<lambda>p t. Inl SyntaxError"
        "Element ''P'' [] None None
           [Element ''A'' [(''id'', ''1'')] None None [],
            Element ''{u}B'' [(''id'', ''1''), (''x'', ''y'')] None None [],
            Element ''A'' [(''id'', ''2'')] None None [],
            Element ''C'' [(''id'', ''1'')] None None [],
            Element ''A'' [(''x'', ''y''), (''id'', ''1'')] None None []]"
        "Some [(''id'', ''1'')]"]
  by (simp add: attrs_superset_def map_le_def child_refs_def plain_tag_def plain_name_def
      name_start_def name_char_def)




section \<open>Find-or-create update: lemmas\<close>

lemma update_at_single: "update_at [i] f p = update_child i f p"
  by (simp add: update_child_def)

lemma update_child_id: "update_child i (\<lambda>e. e) p = p"
  by (simp add: update_child_def)

lemma update_child_comp: "update_child i f (update_child i g p) = update_child i (\<lambda>e. f (g e)) p"
  by (cases "i < length (children p)") (simp_all add: update_child_def list_update_beyond)

lemma fold_update_child:
  "fold (\<lambda>k p. case map_of a k of None \<Rightarrow> p | Some v \<Rightarrow> update_at [i] (set_attr k v) p) ks p =
     update_child i (set_attrs a ks) p"
proof (induction ks arbitrary: p)
  case Nil
  show ?case by (simp add: set_attrs_def update_child_id)
next
  case (Cons k ks)
  show ?case
    by (cases "map_of a k")
       (simp_all add: Cons.IH set_attrs_def update_child_comp update_at_single
                 del: update_at.simps)
qed

lemma finish_fold:
  "fold (\<lambda>k p. case map_of a k of None \<Rightarrow> p | Some v \<Rightarrow> update_at [i] (set_attr k v) p)
        (map fst a)
        (case txt of None \<Rightarrow> q | Some t \<Rightarrow> update_at [i] (set_text (Some t)) q) =
   update_child i (finish txt a) q"
  by (cases "txt")
     (simp_all add: fold_update_child finish_def update_child_comp update_at_single
               del: update_at.simps)

lemma set_or_make_child_none:
  assumes "find_all_children lib p (Tag tg) attr = Inr []"
  shows "set_or_make_child lib p tg txt attr ord kns =
           (update_child (add_child_position p (Element tg [] None None []) ord kns)
              (finish txt (attr_dict attr)) (fst (add_child p (Element tg [] None None []) ord kns)),
            Inr [add_child_position p (Element tg [] None None []) ord kns],
            snd (add_child p (Element tg [] None None []) ord kns))"
  using assms find_all_children_attr_dict[of lib p "Tag tg" attr]
  by (simp add: set_or_make_child_def find_child_def finish_fold attr_dict_def Let_def
           del: update_at.simps)

lemma set_or_make_child_one:
  assumes "find_all_children lib p (Tag tg) attr = Inr [[i]]"
  shows "set_or_make_child lib p tg txt attr ord kns =
           (update_child i (finish txt (attr_dict attr)) p, Inr [i], [])"
  using assms find_all_children_attr_dict[of lib p "Tag tg" attr]
  by (simp add: set_or_make_child_def find_child_def finish_fold attr_dict_def Let_def
           del: update_at.simps)

lemma set_or_make_child_many:
  assumes "find_all_children lib p (Tag tg) attr = Inr ms" and "2 \<le> length ms"
  shows "set_or_make_child lib p tg txt attr ord kns = (p, Inl LookupError, [])"
  using assms find_all_children_attr_dict[of lib p "Tag tg" attr]
  by (simp add: set_or_make_child_def find_child_def attr_dict_def)

lemma set_or_make_child_error:
  assumes "find_all_children lib p (Tag tg) attr = Inl err"
  shows "set_or_make_child lib p tg txt attr ord kns = (p, Inl err, [])"
  using assms find_all_children_attr_dict[of lib p "Tag tg" attr]
  by (simp add: set_or_make_child_def find_child_def attr_dict_def)

lemma tag_set_attr [simp]: "tag (set_attr k v e) = tag e"
  by (cases e) (simp add: set_attr_def)

lemma elem_text_set_attr [simp]: "elem_text (set_attr k v e) = elem_text e"
  by (cases e) (simp add: set_attr_def)

lemma attrib_set_attr [simp]: "attrib (set_attr k v e) = AList.update k v (attrib e)"
  by (cases e) (simp add: set_attr_def)

lemma set_attr_triv: "map_of (attrib e) k = Some v \<Longrightarrow> set_attr k v e = e"
  by (cases e) (simp add: set_attr_def AList.update_triv)

lemma tag_set_attrs [simp]: "tag (set_attrs a ks e) = tag e"
  unfolding set_attrs_def by (induction ks arbitrary: e) (auto split: option.splits)

lemma elem_text_set_attrs [simp]: "elem_text (set_attrs a ks e) = elem_text e"
  unfolding set_attrs_def by (induction ks arbitrary: e) (auto split: option.splits)

lemma map_of_set_attrs:
  "map_of (attrib (set_attrs a ks e)) k =
     (if k \<in> set ks \<and> map_of a k \<noteq> None then map_of a k else map_of (attrib e) k)"
  unfolding set_attrs_def
  by (induction ks arbitrary: e) (auto simp: AList.update_conv' split: option.splits)

lemma set_attrs_triv:
  assumes "\<forall>k\<in>set ks. map_of (attrib e) k = map_of a k"
  shows "set_attrs a ks e = e"
  using assms unfolding set_attrs_def
  by (induction ks) (auto simp: set_attr_triv split: option.splits)

lemma set_text_triv: "elem_text e = x \<Longrightarrow> set_text x e = e"
  by (cases e) auto

lemma tag_set_text [simp]: "tag (set_text x e) = tag e"
  by (cases e) simp

lemma attrib_set_text [simp]: "attrib (set_text x e) = attrib e"
  by (cases e) simp

lemma elem_text_set_text [simp]: "elem_text (set_text x e) = x"
  by (cases e) simp

lemma tag_finish [simp]: "tag (finish txt a e) = tag e"
  by (cases "txt") (simp_all add: finish_def)

lemma elem_text_finish: "elem_text (finish txt a e) = (case txt of None \<Rightarrow> elem_text e | Some t \<Rightarrow> Some t)"
  by (cases "txt") (simp_all add: finish_def)

lemma map_of_finish:
  "k \<in> fst ` set a \<Longrightarrow> map_of (attrib (finish txt a e)) k = map_of a k"
  by (cases "txt") (auto simp: finish_def map_of_set_attrs map_of_eq_None_iff)

lemma selected_by_tag: "tag e = tag e' \<Longrightarrow> selected_by t e = selected_by t e'"
  by (simp add: selected_by_def split: path_kind.splits)

lemma is_match_finish: "selected_by tg e \<Longrightarrow> is_match tg a (finish txt a e)"
  using selected_by_tag[of "finish txt a e" e tg]
  by (simp add: is_match_def attrib_found_iff map_of_finish)

lemma selected_by_self:
  "path_kind tg = PlainTag \<or> path_kind tg = Star \<Longrightarrow> selected_by tg (Element tg at tx ta cs)"
  by (auto simp: selected_by_def)

lemma finish_idem: "finish txt a (finish txt a e) = finish txt a e"
proof -
  let ?e = "finish txt a e"
  have t: "(case txt of None \<Rightarrow> ?e | Some t \<Rightarrow> set_text (Some t) ?e) = ?e"
    by (cases "txt") (simp_all add: set_text_triv elem_text_finish)
  have "set_attrs a (map fst a) ?e = ?e"
    by (rule set_attrs_triv) (simp add: map_of_finish)
  then show ?thesis
    using t by (simp add: finish_def[of "txt" a, THEN fun_cong, of ?e])
qed

lemma filter_upt_singleton: "i < n \<Longrightarrow> filter (\<lambda>j. j = i) [0..<n] = [i]"
  by (induction n) (auto simp: less_Suc_eq)

lemma children_update_child [simp]:
  "children (update_child i f p) = (children p)[i := f (children p ! i)]"
  by (simp add: update_child_def)

lemma update_child_triv: "f (children p ! i) = children p ! i \<Longrightarrow> update_child i f p = p"
  by (simp add: update_child_def)

text \<open>The positions of the children that match.\<close>

lemma child_refs_single:
  "child_refs P p = [r] \<longleftrightarrow>
     (\<exists>i. r = [i] \<and> filter (\<lambda>j. P (children p ! j)) [0..<length (children p)] = [i])"
  by (auto simp: child_refs_def map_eq_Cons_conv)

lemma matches_after_update:
  assumes "filter (\<lambda>j. is_match tg a (children p ! j)) [0..<length (children p)] = [i]"
  shows "filter (\<lambda>j. is_match tg a (children (update_child i (finish txt a) p) ! j))
           [0..<length (children (update_child i (finish txt a) p))] = [i]"
proof -
  let ?cs = "children p"
  from assms have "i \<in> set (filter (\<lambda>j. is_match tg a (?cs ! j)) [0..<length ?cs])" by simp
  then have i: "i < length ?cs" and m: "is_match tg a (?cs ! i)"
    by simp_all
  then have m': "is_match tg a (finish txt a (?cs ! i))"
    using is_match_finish[of tg "?cs ! i" a "txt"] by (simp add: is_match_def)
  have "filter (\<lambda>j. is_match tg a (?cs[i := finish txt a (?cs ! i)] ! j)) [0..<length ?cs] =
        filter (\<lambda>j. is_match tg a (?cs ! j)) [0..<length ?cs]"
    using i m m' by (intro filter_cong) (auto simp: nth_list_update)
  then show ?thesis
    using assms by simp
qed

lemma nth_list_insert:
  "i \<le> length xs \<Longrightarrow> j \<le> length xs \<Longrightarrow>
   list_insert i x xs ! j = (if j < i then xs ! j else if j = i then x else xs ! (j - 1))"
  by (auto simp: list_insert_def nth_append nth_Cons' min_def)

lemma length_list_insert [simp]: "length (list_insert i x xs) = Suc (length xs)"
  by (simp add: list_insert_def)

lemma list_insert_update: "i \<le> length xs \<Longrightarrow> (list_insert i x xs)[i := y] = list_insert i y xs"
  by (simp add: list_insert_def list_update_append min_def)

lemma matches_after_create:
  assumes "filter (\<lambda>j. is_match tg a (children p ! j)) [0..<length (children p)] = []"
    and "i \<le> length (children p)" and "selected_by tg e"
  shows "filter (\<lambda>j. is_match tg a (list_insert i (finish txt a e) (children p) ! j))
           [0..<Suc (length (children p))] = [i]"
proof -
  let ?cs = "children p"
  let ?E = "finish txt a e"
  have none: "\<And>j. j < length ?cs \<Longrightarrow> \<not> is_match tg a (?cs ! j)"
    using assms(1) by (auto simp: filter_empty_conv)
  have E: "is_match tg a ?E"
    using assms(3) by (rule is_match_finish)
  have "filter (\<lambda>j. is_match tg a (list_insert i ?E ?cs ! j)) [0..<Suc (length ?cs)] =
        filter (\<lambda>j. j = i) [0..<Suc (length ?cs)]"
  proof (rule filter_cong[OF refl])
    fix j assume "j \<in> set [0..<Suc (length ?cs)]"
    then have j: "j \<le> length ?cs" by auto
    show "is_match tg a (list_insert i ?E ?cs ! j) = (j = i)"
      using assms(2) j E none by (auto simp: nth_list_insert)
  qed
  also have "\<dots> = [i]"
    using assms(2) by (intro filter_upt_singleton) simp
  finally show ?thesis .
qed

text \<open>
  The second of two identical calls, for a tag that selects the element made with it
  (a plain tag, or \<open>*\<close>): once a call has returned the reference \<open>r\<close>, the element at \<open>r\<close> is
  the only match, it carries the given text, and calling again changes nothing and
  returns \<open>r\<close> again.
\<close>

lemma set_or_make_child_again:
  assumes H: "path_kind tg = PlainTag \<or> path_kind tg = Star"
    and r: "fst (snd (set_or_make_child lib parent tg txt attr ord kns)) = Inr r"
  shows "set_or_make_child lib (fst (set_or_make_child lib parent tg txt attr ord kns))
            tg txt attr ord kns =
           (fst (set_or_make_child lib parent tg txt attr ord kns), Inr r, []) \<and>
         find_all_children lib (fst (set_or_make_child lib parent tg txt attr ord kns))
            (Tag tg) attr = Inr [r] \<and>
         (\<forall>t. txt = Some t \<longrightarrow>
            elem_text (get_at (fst (set_or_make_child lib parent tg txt attr ord kns)) r) = Some t)"
proof -
  let ?a = "attr_dict attr"
  let ?new = "Element tg [] None None []"
  let ?pos = "add_child_position parent ?new ord kns"
  let ?r1 = "set_or_make_child lib parent tg txt attr ord kns"
  let ?pos_of = "\<lambda>q. filter (\<lambda>j. is_match tg ?a (children q ! j)) [0..<length (children q)]"
  from H have mod: "path_kind tg \<noteq> OtherPath" by auto
  have fac: "find_all_children lib q (Tag tg) attr = Inr (map (\<lambda>i. [i]) (?pos_of q))" for q
    using find_all_children_Tag[OF mod, of lib q ?a]
    by (simp add: find_all_children_attr_dict child_refs_def)
  consider (none) "?pos_of parent = []" | (one) k where "?pos_of parent = [k]"
    | (many) "2 \<le> length (?pos_of parent)"
    by (cases "?pos_of parent" rule: list.exhaust; cases "tl (?pos_of parent)") auto
  then show ?thesis
  proof cases
    case none
    then have fn: "find_all_children lib parent (Tag tg) attr = Inr []"
      by (simp add: fac)
    have r1: "fst ?r1 = update_child ?pos (finish txt ?a)
                (set_children (list_insert ?pos ?new (children parent)) parent)"
      and j: "r = [?pos]"
      using r by (simp_all add: set_or_make_child_none[OF fn] add_child_fst(1))
    have pl: "?pos \<le> length (children parent)" by (rule add_child_fst(2))
    have ch: "children (fst ?r1) = list_insert ?pos (finish txt ?a ?new) (children parent)"
      using pl by (simp add: r1 list_insert_update nth_list_insert)
    have "?pos_of (fst ?r1) = [?pos]"
      unfolding ch using matches_after_create[OF none pl selected_by_self[OF H], of "txt"]
      by simp
    then have m: "find_all_children lib (fst ?r1) (Tag tg) attr = Inr [[?pos]]"
      by (simp add: fac)
    have at: "children (fst ?r1) ! ?pos = finish txt ?a ?new"
      using pl by (simp add: ch nth_list_insert)
    have "update_child ?pos (finish txt ?a) (fst ?r1) = fst ?r1"
      by (rule update_child_triv) (simp add: at finish_idem)
    then have again: "set_or_make_child lib (fst ?r1) tg txt attr ord kns =
                        (fst ?r1, Inr [?pos], [])"
      by (simp add: set_or_make_child_one[OF m])
    have "\<forall>t. txt = Some t \<longrightarrow> elem_text (get_at (fst ?r1) [?pos]) = Some t"
      unfolding get_at_single at by (simp add: elem_text_finish)
    with again m show ?thesis unfolding j by blast
  next
    case one
    then have fo: "find_all_children lib parent (Tag tg) attr = Inr [[k]]"
      by (simp add: fac)
    have r1: "fst ?r1 = update_child k (finish txt ?a) parent" and j: "r = [k]"
      using r by (simp_all add: set_or_make_child_one[OF fo])
    from one have "k \<in> set (?pos_of parent)" by simp
    then have kl: "k < length (children parent)" by simp
    have "?pos_of (fst ?r1) = [k]"
      unfolding r1 by (rule matches_after_update[OF one])
    then have m: "find_all_children lib (fst ?r1) (Tag tg) attr = Inr [[k]]"
      by (simp add: fac)
    have at: "children (fst ?r1) ! k = finish txt ?a (children parent ! k)"
      using kl by (simp add: r1)
    have "update_child k (finish txt ?a) (fst ?r1) = fst ?r1"
      by (rule update_child_triv) (simp add: at finish_idem)
    then have again: "set_or_make_child lib (fst ?r1) tg txt attr ord kns =
                        (fst ?r1, Inr [k], [])"
      by (simp add: set_or_make_child_one[OF m])
    have "\<forall>t. txt = Some t \<longrightarrow> elem_text (get_at (fst ?r1) [k]) = Some t"
      unfolding get_at_single at by (simp add: elem_text_finish)
    with again m show ?thesis unfolding j by blast
  next
    case many
    then have "set_or_make_child lib parent tg txt attr ord kns = (parent, Inl LookupError, [])"
      by (intro set_or_make_child_many[OF fac]) simp
    with r show ?thesis by simp
  qed
qed

text \<open>A call that raises leaves the parent as it was, and so does the call after it.\<close>

lemma set_or_make_child_raised:
  assumes "fst (snd (set_or_make_child lib parent tg txt attr ord kns)) = Inl err"
  shows "set_or_make_child lib parent tg txt attr ord kns = (parent, Inl err, [])"
proof (cases "find_all_children lib parent (Tag tg) attr")
  case (Inl e)
  with assms show ?thesis by (simp add: set_or_make_child_error)
next
  case (Inr ms)
  consider "ms = []" | x where "ms = [x]" | "2 \<le> length ms"
    by (cases ms rule: list.exhaust; cases "tl ms") auto
  then show ?thesis
  proof cases
    case 1
    with Inr assms show ?thesis by (simp add: set_or_make_child_none)
  next
    case 2
    with Inr assms show ?thesis
      by (simp add: set_or_make_child_def find_child_def find_all_children_attr_dict[unfolded attr_dict_def]
          Let_def split: prod.splits)
  next
    case 3
    with Inr assms show ?thesis by (simp add: set_or_make_child_many)
  qed
qed

section \<open>Find-or-create update: the claims\<close>

text \<open>
  Claim C2, as stated, fails for a tag that the lookup reads as a path expression which
  does not select the element created with that very tag. With the tag \<open>{}Item\<close> (an empty
  namespace uri) \<open>findall\<close> looks for children tagged \<open>Item\<close>, while the element created is
  tagged \<open>{}Item\<close>: the second call does not find the child the first call made and makes
  another. The parameter plays no part, \<open>{}Item\<close> being a modelled expression: the lemma
  after the theorem has the same for every library.
\<close>

theorem set_or_make_child_twice_counterexample:
  "fst (set_or_make_child (\<lambda>p t. Inl SyntaxError) (Element ''Envelope'' [] None None [])
          ''{}Item'' (Some ''5'') (Some [(''id'', ''1'')]) None None) =
     Element ''Envelope'' [] None None
       [Element ''{}Item'' [(''id'', ''1'')] (Some ''5'') None []] \<and>
   fst (set_or_make_child (\<lambda>p t. Inl SyntaxError)
          (fst (set_or_make_child (\<lambda>p t. Inl SyntaxError) (Element ''Envelope'' [] None None [])
                  ''{}Item'' (Some ''5'') (Some [(''id'', ''1'')]) None None))
          ''{}Item'' (Some ''5'') (Some [(''id'', ''1'')]) None None) =
     Element ''Envelope'' [] None None
       [Element ''{}Item'' [(''id'', ''1'')] (Some ''5'') None [],
        Element ''{}Item'' [(''id'', ''1'')] (Some ''5'') None []]"
  by (simp add: set_or_make_child_def find_child_def find_all_children_def findall_def
      path_kind_def plain_tag_def plain_name_def name_start_def name_char_def child_refs_def
      add_child_def add_child_position_def set_attr_def Let_def)

lemma set_or_make_child_twice_any_library:
  "children (fst (set_or_make_child lib
          (fst (set_or_make_child lib (Element ''Envelope'' [] None None [])
                  ''{}Item'' (Some ''5'') (Some [(''id'', ''1'')]) None None))
          ''{}Item'' (Some ''5'') (Some [(''id'', ''1'')]) None None)) =
     [Element ''{}Item'' [(''id'', ''1'')] (Some ''5'') None [],
      Element ''{}Item'' [(''id'', ''1'')] (Some ''5'') None []]"
  by (simp add: set_or_make_child_def find_child_def find_all_children_def findall_def
      path_kind_def plain_tag_def plain_name_def name_start_def name_char_def child_refs_def
      add_child_def add_child_position_def set_attr_def Let_def)

text \<open>
  Claim C2, amended. For a plain tag (a name, or \<open>{uri}name\<close> with a non-empty uri, without
  path syntax) or the tag \<open>*\<close>, calling \<open>set_or_make_child\<close> a second time with the same
  arguments leaves the parent exactly as the first call left it (so also equal by tags,
  attributes and text): no element is created and no sibling moves. When the first call
  returned an element, the second returns the same one, logs nothing, and that element
  is the only one matching the tag and attributes; it carries the given text. In
  particular, under a parent without children,
  \<open>set_or_make_child(parent, "Item", text="5", attrib={"id": "1"})\<close> called twice leaves
  exactly the one child \<open><Item id="1">5</Item>\<close>.
\<close>

theorem set_or_make_child_idempotent:
  assumes "plain_tag tg \<or> tg = ''*''"
  shows
  "fst (set_or_make_child lib (fst (set_or_make_child lib parent tg txt attr ord kns))
          tg txt attr ord kns) =
     fst (set_or_make_child lib parent tg txt attr ord kns) \<and>
   (\<forall>r. fst (snd (set_or_make_child lib parent tg txt attr ord kns)) = Inr r \<longrightarrow>
      set_or_make_child lib (fst (set_or_make_child lib parent tg txt attr ord kns))
          tg txt attr ord kns =
        (fst (set_or_make_child lib parent tg txt attr ord kns), Inr r, []) \<and>
      find_all_children lib (fst (set_or_make_child lib parent tg txt attr ord kns))
          (Tag tg) attr = Inr [r] \<and>
      (\<forall>t. txt = Some t \<longrightarrow>
         elem_text (get_at (fst (set_or_make_child lib parent tg txt attr ord kns)) r) = Some t)) \<and>
   fst (set_or_make_child lib
          (fst (set_or_make_child lib (Element ''Envelope'' [] None None [])
                  ''Item'' (Some ''5'') (Some [(''id'', ''1'')]) ord kns))
          ''Item'' (Some ''5'') (Some [(''id'', ''1'')]) ord kns) =
     Element ''Envelope'' [] None None [Element ''Item'' [(''id'', ''1'')] (Some ''5'') None []]"
proof -
  have idem: "fst (set_or_make_child lib (fst (set_or_make_child lib p g x a ord kns)) g x a ord kns) =
              fst (set_or_make_child lib p g x a ord kns)"
    if "path_kind g = PlainTag \<or> path_kind g = Star" for p g x a
  proof (cases "fst (snd (set_or_make_child lib p g x a ord kns))")
    case (Inr r)
    from set_or_make_child_again[OF that this] show ?thesis by simp
  next
    case (Inl err)
    then show ?thesis by (simp add: set_or_make_child_raised)
  qed
  from assms have H: "path_kind tg = PlainTag \<or> path_kind tg = Star"
    by (auto simp: path_kind_plain path_kind_star)
  have item: "plain_tag ''Item''"
    by (simp add: plain_tag_def plain_name_def name_start_def name_char_def)
  then have Hi: "path_kind ''Item'' = PlainTag \<or> path_kind ''Item'' = Star"
    by (simp add: path_kind_plain)
  let ?E = "Element ''Envelope'' [] None None []"
  have none: "find_all_children lib ?E (Tag ''Item'') (Some [(''id'', ''1'')]) = Inr []"
    by (simp add: find_all_children_def findall_plain[OF item] child_refs_def)
  have pos: "add_child_position ?E (Element ''Item'' [] None None []) ord kns = 0"
    using add_child_fst(2)[of ?E "Element ''Item'' [] None None []" ord kns] by simp
  have "fst (set_or_make_child lib ?E ''Item'' (Some ''5'') (Some [(''id'', ''1'')]) ord kns) =
        Element ''Envelope'' [] None None [Element ''Item'' [(''id'', ''1'')] (Some ''5'') None []]"
    by (simp add: set_or_make_child_none[OF none] add_child_fst(1) pos list_insert_def
        update_child_def finish_def set_attrs_def attr_dict_def set_attr_def)
  with idem[OF Hi, of ?E "Some ''5''" "Some [(''id'', ''1'')]"]
  have scen: "fst (set_or_make_child lib
          (fst (set_or_make_child lib ?E ''Item'' (Some ''5'') (Some [(''id'', ''1'')]) ord kns))
          ''Item'' (Some ''5'') (Some [(''id'', ''1'')]) ord kns) =
     Element ''Envelope'' [] None None [Element ''Item'' [(''id'', ''1'')] (Some ''5'') None []]"
    by simp
  show ?thesis
    using idem[OF H, of parent "txt" attr]
      set_or_make_child_again[OF H, of lib parent "txt" attr ord kns] scen
    by blast
qed

theorem set_or_make_child_idempotent_witness:
  "set_or_make_child (\<lambda>p t. Inl SyntaxError)
     (fst (set_or_make_child (\<lambda>p t. Inl SyntaxError)
             (Element ''Section'' [] None None
                [Element ''Info'' [] None None [],
                 Element ''Item'' [(''id'', ''1''), (''x'', ''y'')] (Some ''4'') None [],
                 Element ''Item'' [(''id'', ''2'')] (Some ''7'') None []])
             ''Item'' (Some ''5'') (Some [(''id'', ''1'')]) None None))
     ''Item'' (Some ''5'') (Some [(''id'', ''1'')]) None None =
   (Element ''Section'' [] None None
      [Element ''Info'' [] None None [],
       Element ''Item'' [(''id'', ''1''), (''x'', ''y'')] (Some ''5'') None [],
       Element ''Item'' [(''id'', ''2'')] (Some ''7'') None []],
    Inr [1], [])"
proof -
  let ?P = "Element ''Section'' [] None None
                [Element ''Info'' [] None None [],
                 Element ''Item'' [(''id'', ''1''), (''x'', ''y'')] (Some ''4'') None [],
                 Element ''Item'' [(''id'', ''2'')] (Some ''7'') None []]"
  have item: "plain_tag ''Item''"
    by (simp add: plain_tag_def plain_name_def name_start_def name_char_def)
  have first: "set_or_make_child (\<lambda>p t. Inl SyntaxError) ?P ''Item'' (Some ''5'')
                 (Some [(''id'', ''1'')]) None None =
     (Element ''Section'' [] None None
      [Element ''Info'' [] None None [],
       Element ''Item'' [(''id'', ''1''), (''x'', ''y'')] (Some ''5'') None [],
       Element ''Item'' [(''id'', ''2'')] (Some ''7'') None []],
      Inr [1], [])"
    by (simp add: set_or_make_child_def find_child_def find_all_children_def
        findall_plain[OF item] child_refs_def get_attr_def set_attr_def)
  from set_or_make_child_idempotent[of "''Item''" "\<lambda>p t. Inl SyntaxError" ?P "Some ''5''"
        "Some [(''id'', ''1'')]" None None] item
  show ?thesis
    unfolding first by simp
qed



section \<open>Serialization formatting: lemmas\<close>

lemma xml_reindent_leaf:
  "xml_reindent (Element tg at tx ta []) d =
     (if d + 2 = 0 then Element tg at tx (Some [CHR 0x0A]) [] else Element tg at tx ta [])"
  by (simp add: xml_reindent.simps[of "Element tg at tx ta []"])

lemma xml_reindent_node:
  "xml_reindent (Element tg at tx ta (c # cs)) d =
     (if d = 0 then set_tail (Some [CHR 0x0A]) else (\<lambda>p. p))
       (Element tg at (Some (indent (d + 2))) ta
          (butlast (map (\<lambda>e. xml_reindent (set_tail (Some (indent (d + 2))) e) (d + 2)) (c # cs)) @
           [set_tail (Some (indent d))
              (last (map (\<lambda>e. xml_reindent (set_tail (Some (indent (d + 2))) e) (d + 2)) (c # cs)))]))"
  by (simp add: xml_reindent.simps[of "Element tg at tx ta (c # cs)"] Let_def del: map_butlast last_map)

lemma strip_layout_set_tail [simp]: "strip_layout (set_tail x e) = strip_layout e"
  by (cases e) simp

lemma strip_layout_last:
  "xs \<noteq> [] \<Longrightarrow> map strip_layout (butlast xs @ [set_tail y (last xs)]) = map strip_layout xs"
  by (induction xs) auto

lemma strip_layout_xml_reindent: "strip_layout (xml_reindent e d) = strip_layout e"
proof (induction e d rule: xml_reindent.induct)
  case (1 parent depth0)
  obtain tg at tx ta cs where p: "parent = Element tg at tx ta cs" by (cases parent)
  show ?case
  proof (cases cs)
    case Nil
    with p show ?thesis by (simp add: xml_reindent_leaf)
  next
    case (Cons c cs')
    let ?f = "\<lambda>e. xml_reindent (set_tail (Some (indent (depth0 + 2))) e) (depth0 + 2)"
    have each: "\<And>e. e \<in> set cs \<Longrightarrow> strip_layout (?f e) = strip_layout e"
      using 1 p by simp
    have ne: "map ?f cs \<noteq> []" using Cons by simp
    have "map strip_layout (butlast (map ?f cs) @ [set_tail (Some (indent depth0)) (last (map ?f cs))]) =
          map strip_layout (map ?f cs)"
      by (rule strip_layout_last[OF ne])
    also have "\<dots> = map strip_layout cs"
      using each by simp
    finally have "map strip_layout
         (butlast (map ?f (c # cs')) @ [set_tail (Some (indent depth0)) (last (map ?f (c # cs')))]) =
          map strip_layout (c # cs')"
      unfolding Cons .
    then show ?thesis
      unfolding p Cons xml_reindent_node
      by (cases "depth0 = 0") (simp_all del: map_butlast last_map map_map list.map)
  qed
qed


lemma blank_indent [simp]: "blank (Some (indent d))"
  by (simp add: blank_def indent_def list_all_iff)

lemma blank_newline [simp]: "blank (Some [CHR 0x0A])"
  by (simp add: blank_def)

lemma significant_blank: "blank x \<Longrightarrow> significant x = None"
  by (simp add: significant_def)

lemma content_set_tail: "blank x \<Longrightarrow> blank (tail e) \<Longrightarrow> content (set_tail x e) = content e"
  by (cases e) (simp add: significant_blank)

lemma no_mixed_content_set_tail [simp]: "no_mixed_content (set_tail x e) = no_mixed_content e"
  by (cases e) simp

lemma tail_set_tail [simp]: "tail (set_tail x e) = x"
  by (cases e) simp

lemma blank_tail_xml_reindent: "blank (tail e) \<Longrightarrow> blank (tail (xml_reindent e d))"
proof (cases e)
  case (Element tg at tx ta cs)
  assume "blank (tail e)"
  with Element show ?thesis
    by (cases cs) (simp_all add: xml_reindent_leaf xml_reindent_node)
qed

lemma content_last:
  "xs \<noteq> [] \<Longrightarrow> blank y \<Longrightarrow> blank (tail (last xs)) \<Longrightarrow>
   map content (butlast xs @ [set_tail y (last xs)]) = map content xs"
  by (induction xs) (auto simp: content_set_tail)

lemma content_xml_reindent:
  "no_mixed_content e \<Longrightarrow> blank (tail e) \<Longrightarrow> content (xml_reindent e d) = content e"
proof (induction e d rule: xml_reindent.induct)
  case (1 parent depth0)
  obtain tg at tx ta cs where p: "parent = Element tg at tx ta cs" by (cases parent)
  show ?case
  proof (cases cs)
    case Nil
    with p "1.prems" show ?thesis
      by (simp add: xml_reindent_leaf significant_blank)
  next
    case (Cons c cs')
    let ?f = "\<lambda>e. xml_reindent (set_tail (Some (indent (depth0 + 2))) e) (depth0 + 2)"
    have kids: "\<And>e. e \<in> set cs \<Longrightarrow> blank (tail e) \<and> no_mixed_content e"
      and tx: "blank tx" and ta: "blank ta"
      using "1.prems" p Cons by auto
    have each: "content (?f e) = content e" if "e \<in> set cs" for e
    proof -
      have "content (?f e) = content (set_tail (Some (indent (depth0 + 2))) e)"
        using "1.IH"[OF refl, of e] that p kids[OF that] by simp
      also have "\<dots> = content e"
        using kids[OF that] by (simp add: content_set_tail)
      finally show ?thesis .
    qed
    have ne: "map ?f cs \<noteq> []" using Cons by simp
    have "last (map ?f cs) = ?f (last cs)"
      using Cons by (simp add: last_map)
    then have bl: "blank (tail (last (map ?f cs)))"
      by (simp add: blank_tail_xml_reindent)
    have "map content (butlast (map ?f cs) @ [set_tail (Some (indent depth0)) (last (map ?f cs))]) =
          map content (map ?f cs)"
      by (rule content_last[OF ne _ bl]) simp
    also have "\<dots> = map content cs"
      using each by simp
    finally have "map content
         (butlast (map ?f (c # cs')) @ [set_tail (Some (indent depth0)) (last (map ?f (c # cs')))]) =
          map content (c # cs')"
      unfolding Cons .
    then show ?thesis
      unfolding p Cons xml_reindent_node using tx ta
      by (cases "depth0 = 0")
         (simp_all add: significant_blank del: map_butlast last_map map_map list.map)
  qed
qed

lemma tail_xml_reindent: "0 < d \<Longrightarrow> tail (xml_reindent e d) = tail e"
  by (cases e; cases "children e") (simp_all add: xml_reindent_leaf xml_reindent_node)

lemma indented_set_tail [simp]: "indented d (set_tail x e) = indented d e"
  by (cases e) simp

lemma indented_xml_reindent: "0 \<le> d \<Longrightarrow> indented d (xml_reindent e d)"
proof (induction e d rule: xml_reindent.induct)
  case (1 parent depth0)
  obtain tg at tx ta cs where p: "parent = Element tg at tx ta cs" by (cases parent)
  show ?case
  proof (cases cs)
    case Nil
    with p show ?thesis by (simp add: xml_reindent_leaf)
  next
    case (Cons c cs')
    let ?f = "\<lambda>e. xml_reindent (set_tail (Some (indent (depth0 + 2))) e) (depth0 + 2)"
    let ?cs = "butlast (map ?f cs) @ [set_tail (Some (indent depth0)) (last (map ?f cs))]"
    have pos: "0 < depth0 + 2" "0 \<le> depth0 + 2" using "1.prems" by simp_all
    have ind: "\<And>e. e \<in> set cs \<Longrightarrow> indented (depth0 + 2) (?f e)"
      using "1.IH"[OF refl _ pos(2)] p by simp
    have tl: "\<And>e. tail (?f e) = Some (indent (depth0 + 2))"
      using pos(1) by (simp add: tail_xml_reindent)
    have ne: "map ?f cs \<noteq> []" using Cons by simp
    have all: "\<And>x. x \<in> set (map ?f cs) \<Longrightarrow> tail x = Some (indent (depth0 + 2))"
      using tl by auto
    have a: "\<forall>x\<in>set (butlast ?cs). tail x = Some (indent (depth0 + 2))"
      using all by (simp del: map_butlast set_map) (blast dest: in_set_butlastD)
    have b: "tail (last ?cs) = Some (indent depth0)" by simp
    have "last (map ?f cs) \<in> set (map ?f cs)" using ne by (rule last_in_set)
    moreover have "\<And>x. x \<in> set (map ?f cs) \<Longrightarrow> indented (depth0 + 2) x"
      using ind by auto
    ultimately have c: "\<forall>x\<in>set ?cs. indented (depth0 + 2) x"
      by (simp del: map_butlast set_map last_map) (blast dest: in_set_butlastD)
    have "indented depth0 (Element tg at (Some (indent (depth0 + 2))) ta ?cs)"
      using a b c by simp
    then show ?thesis
      unfolding p Cons xml_reindent_node
      by (cases "depth0 = 0") (simp_all del: map_butlast last_map map_map list.map)
  qed
qed


section \<open>Serialization formatting: the claims\<close>

text \<open>
  Claim C9. \<open>xml_reindent\<close> changes only text and tail fields: the tag and the attributes
  of every element, the shape of the tree and the text of every childless element are
  as before. So on a document without mixed content, whose text beside child elements
  is whitespace only (the root's tail included), it changes no semantic content: apart
  from whitespace-only text and tails the tree is the same.
\<close>

theorem xml_reindent_cosmetic:
  "strip_layout (xml_reindent e d) = strip_layout e \<and>
   (no_mixed_content e \<and> blank (tail e) \<longrightarrow> content (xml_reindent e d) = content e)"
  by (simp add: strip_layout_xml_reindent content_xml_reindent)

theorem xml_reindent_cosmetic_witness:
  "content (xml_reindent
      (Element ''Envelope'' [(''v'', ''1'')] (Some '' '') None
         [Element ''Info'' [] (Some ''  text '') None [],
          Element ''Section'' [(''id'', ''s'')] None (Some [CHR 0x0A])
            [Element ''Item'' [] (Some ''5'') None []]]) 0) =
   Element ''Envelope'' [(''v'', ''1'')] None None
         [Element ''Info'' [] (Some ''  text '') None [],
          Element ''Section'' [(''id'', ''s'')] None None
            [Element ''Item'' [] (Some ''5'') None []]]"
  using xml_reindent_cosmetic[of
      "Element ''Envelope'' [(''v'', ''1'')] (Some '' '') None
         [Element ''Info'' [] (Some ''  text '') None [],
          Element ''Section'' [(''id'', ''s'')] None (Some [CHR 0x0A])
            [Element ''Item'' [] (Some ''5'') None []]]" 0]
  by (simp add: blank_def significant_def)

text \<open>
  Claim C8 fails on a root without children: the \<open>depth -= 2\<close> that brings the root back
  to depth 0 sits under \<open>if last is not None\<close>, so the test \<open>depth == 0\<close> that adds the
  newline at the end of the file sees 2 and the root's tail stays as it was.
\<close>

theorem xml_reindent_childless_root:
  "xml_reindent (Element ''Envelope'' [] None None []) 0 = Element ''Envelope'' [] None None [] \<and>
   tail (xml_reindent (Element ''Envelope'' [] None None []) 0) \<noteq> Some [CHR 0x0A]"
  by (simp add: xml_reindent_leaf)

text \<open>
  The rest of claim C8 holds: a root that has children gets the tail \<open>"\n"\<close>, and from
  depth 0 the whole tree is laid out with 2 more spaces per level.
\<close>

lemma xml_reindent_root_tail:
  "children root \<noteq> [] \<Longrightarrow> tail (xml_reindent root 0) = Some [CHR 0x0A]"
  by (cases root; cases "children root") (simp_all add: xml_reindent_node)

lemma xml_reindent_root_indented: "indented 0 (xml_reindent root 0)"
  by (rule indented_xml_reindent) simp

end
